theory Spec2Isabelle
  imports Main
begin

section \<open>Data model (types.ts)\<close>

datatype Player = RED | WHITE

datatype PieceType = PAWN | KING

datatype CheckersVariant =
    ENGLISH | INTERNATIONAL | RUSSIAN | BRAZILIAN | ITALIAN | TURKISH | SUICIDE | SPANISH
  | POOL | CANADIAN | THAI | CZECH | ARMENIAN | FRISIAN | GOTHIC | OLD_GERMAN

datatype AppMode = PLAY | PUZZLE | EDITOR

text \<open>A position \<open>{ r, c }\<close> is the pair \<open>(r, c)\<close>. Row and column indices are the
  integer-valued JavaScript numbers, modelled as \<open>int\<close>.\<close>

type_synonym Pos = "int \<times> int"

text \<open>Field \<open>id\<close> of the source is \<open>pid\<close> here (\<open>id\<close> is the identity function of HOL).\<close>

record Piece =
  pid :: string
  player :: Player
  type :: PieceType
  position :: Pos

text \<open>Fields \<open>from\<close> and \<open>to\<close> of the source are \<open>from_pos\<close> and \<open>to_pos\<close>
  (\<open>from\<close> is a keyword). The optional field \<open>captures\<close> is an option: \<open>None\<close> is
  the absent field. The optional fields \<open>path\<close> and \<open>isKinging\<close> are never written nor
  read by the engine and are left out.\<close>

record Move =
  from_pos :: Pos
  to_pos :: Pos
  captures :: "Pos list option"

record VariantRules =
  boardSize :: int
  pawnCaptureBackwards :: bool
  kingLongRange :: bool
  majorityCaptureRequired :: bool
  qualityCaptureRequired :: bool
  kingCapturePriority :: bool
  pawnCanCaptureKing :: bool
  isOrthogonal :: bool
  isLosingGoal :: bool
  pawnKingTransformationMidJump :: bool
  kingStopsAfterCapture :: bool
  darkSquarePlay :: bool
  removeCapturedImmediately :: bool
  frisianCapturing :: bool

section \<open>Variant rules (getVariantRules)\<close>

definition base :: VariantRules where
  "base = \<lparr> boardSize = 8, pawnCaptureBackwards = False, kingLongRange = False,
     majorityCaptureRequired = False, qualityCaptureRequired = False,
     kingCapturePriority = False, pawnCanCaptureKing = True, isOrthogonal = False,
     isLosingGoal = False, pawnKingTransformationMidJump = False,
     kingStopsAfterCapture = False, darkSquarePlay = True,
     removeCapturedImmediately = False, frisianCapturing = False \<rparr>"

fun getVariantRules :: "CheckersVariant \<Rightarrow> VariantRules" where
  "getVariantRules INTERNATIONAL =
     base\<lparr> boardSize := 10, pawnCaptureBackwards := True, kingLongRange := True,
           majorityCaptureRequired := True \<rparr>"
| "getVariantRules RUSSIAN =
     base\<lparr> pawnCaptureBackwards := True, kingLongRange := True,
           pawnKingTransformationMidJump := True, majorityCaptureRequired := False \<rparr>"
| "getVariantRules BRAZILIAN =
     base\<lparr> pawnCaptureBackwards := True, kingLongRange := True,
           majorityCaptureRequired := True \<rparr>"
| "getVariantRules ITALIAN =
     base\<lparr> majorityCaptureRequired := True, qualityCaptureRequired := True,
           kingCapturePriority := True, pawnCanCaptureKing := False \<rparr>"
| "getVariantRules TURKISH =
     base\<lparr> kingLongRange := True, majorityCaptureRequired := True, isOrthogonal := True,
           darkSquarePlay := False, removeCapturedImmediately := True \<rparr>"
| "getVariantRules ARMENIAN =
     base\<lparr> kingLongRange := True, majorityCaptureRequired := True, isOrthogonal := True,
           darkSquarePlay := False, removeCapturedImmediately := True \<rparr>"
| "getVariantRules SUICIDE =
     base\<lparr> isLosingGoal := True, majorityCaptureRequired := True \<rparr>"
| "getVariantRules SPANISH =
     base\<lparr> kingLongRange := True, majorityCaptureRequired := True,
           qualityCaptureRequired := True \<rparr>"
| "getVariantRules POOL =
     base\<lparr> pawnCaptureBackwards := True, kingLongRange := True,
           majorityCaptureRequired := True \<rparr>"
| "getVariantRules CANADIAN =
     base\<lparr> boardSize := 12, pawnCaptureBackwards := True, kingLongRange := True,
           majorityCaptureRequired := True \<rparr>"
| "getVariantRules THAI =
     base\<lparr> kingLongRange := True, kingStopsAfterCapture := True,
           majorityCaptureRequired := True \<rparr>"
| "getVariantRules CZECH =
     base\<lparr> kingLongRange := True, kingCapturePriority := True \<rparr>"
| "getVariantRules FRISIAN =
     base\<lparr> boardSize := 10, kingLongRange := True, majorityCaptureRequired := True,
           frisianCapturing := True, pawnCaptureBackwards := True \<rparr>"
| "getVariantRules GOTHIC =
     base\<lparr> boardSize := 8, kingLongRange := True, pawnCaptureBackwards := True \<rparr>"
| "getVariantRules OLD_GERMAN =
     base\<lparr> boardSize := 8, kingLongRange := False, majorityCaptureRequired := True \<rparr>"
| "getVariantRules ENGLISH = base"

section \<open>Difficulty level to search depth (getBestMove)\<close>

text \<open>The conditional chain that \<open>getBestMove\<close> evaluates on \<open>gameState.aiLevel\<close>.\<close>

definition depthOfLevel :: "int \<Rightarrow> nat" where
  "depthOfLevel lv =
     (if lv \<le> 2 then 2 else if lv \<le> 4 then 4 else if lv \<le> 6 then 5
      else if lv \<le> 8 then 6 else if lv \<le> 10 then 8 else if lv \<le> 12 then 9
      else if lv \<le> 14 then 10 else if lv = 15 then 11 else if lv = 16 then 12
      else if lv = 17 then 14 else 16)"

section \<open>Boards\<close>

text \<open>The board is a JavaScript array of rows, each an array of \<open>Piece | null\<close>. An
  array element is a piece, \<open>null\<close>, or a hole (an index below the length that was never
  written, which reads as \<open>undefined\<close>); holes only arise when \<open>applyMove\<close> writes
  beyond the end of a row.\<close>

datatype Cell = Hole | Null | Occ Piece

type_synonym Board = "Cell list list"

text \<open>\<open>TypeError\<close> is what JavaScript throws on \<open>board[r][c]\<close> when \<open>board[r]\<close> is
  \<open>undefined\<close>. \<open>Unmodelled\<close> marks the one situation the lists above cannot represent:
  a write at a negative column, which in JavaScript adds a non-index property to the row.\<close>

datatype error = TypeError | Unmodelled

definition pieceOf :: "Cell \<Rightarrow> Piece option" where
  "pieceOf x = (case x of Occ p \<Rightarrow> Some p | _ \<Rightarrow> None)"

text \<open>\<open>cell board r c\<close> is the read \<open>board[r][c]\<close>. Every use in the source only tests
  the value for truthiness or reads a field through \<open>?.\<close>, so \<open>null\<close>, \<open>undefined\<close>
  (column out of range) and a hole are all \<open>None\<close>.\<close>

definition cell :: "Board \<Rightarrow> int \<Rightarrow> int \<Rightarrow> error + Piece option" where
  "cell board r c =
     (if 0 \<le> r \<and> r < int (length board) then
        (let row = board ! nat r in
         if 0 \<le> c \<and> c < int (length row) then Inr (pieceOf (row ! nat c)) else Inr None)
      else Inl TypeError)"

text \<open>\<open>setCell board r c v\<close> is the write \<open>board[r][c] = v\<close> on a board whose rows are
  not shared: a column at or beyond the length extends the row with holes.\<close>

definition setCell :: "Board \<Rightarrow> int \<Rightarrow> int \<Rightarrow> Cell \<Rightarrow> error + Board" where
  "setCell board r c v =
     (if 0 \<le> r \<and> r < int (length board) then
        (if c < 0 then Inl Unmodelled
         else
           (let row = board ! nat r;
                row' = (if nat c < length row then row[nat c := v]
                        else row @ replicate (nat c - length row) Hole @ [v])
            in Inr (board[nat r := row'])))
      else Inl TypeError)"

definition opponent :: "Player \<Rightarrow> Player" where
  "opponent p = (if p = RED then WHITE else RED)"

section \<open>Initial layout (createInitialBoard)\<close>

fun showNat :: "nat \<Rightarrow> string" where
  "showNat n =
     (if n < 10 then [char_of (48 + n)] else showNat (n div 10) @ [char_of (48 + n mod 10)])"

definition showInt :: "int \<Rightarrow> string" where
  "showInt i = (if i < 0 then CHR ''-'' # showNat (nat (- i)) else showNat (nat i))"

text \<open>Parameters that hold the source's \<open>size\<close> are named \<open>bsize\<close> (\<open>size\<close> is a
  constant of HOL).\<close>

definition fillRowsOf :: "CheckersVariant \<Rightarrow> int \<Rightarrow> int" where
  "fillRowsOf variant bsize =
     (let fillRows = (if bsize \<ge> 10 then 4 else 3);
          fillRows = (if bsize = 12 then 5 else fillRows)
      in if variant = THAI then 2 else fillRows)"

definition newPawn :: "string \<Rightarrow> Player \<Rightarrow> int \<Rightarrow> int \<Rightarrow> Piece" where
  "newPawn pre pl r c =
     \<lparr> pid = pre @ ''-'' @ showInt r @ ''-'' @ showInt c, player = pl, type = PAWN,
       position = (r, c) \<rparr>"

text \<open>What the body of the double loop leaves in cell \<open>(r, c)\<close>, which starts as \<open>null\<close>.
  On an all-squares variant the two assignments are two separate \<open>if\<close> statements, so
  the second (RED) one wins where both conditions hold.\<close>

definition initialCell :: "VariantRules \<Rightarrow> int \<Rightarrow> int \<Rightarrow> int \<Rightarrow> Cell" where
  "initialCell rules fillRows r c =
     (let size = boardSize rules in
      if \<not> darkSquarePlay rules then
        (if r \<ge> size - 3 \<and> r \<le> size - 2 then Occ (newPawn ''r'' RED r c)
         else if r \<ge> 1 \<and> r \<le> 2 then Occ (newPawn ''w'' WHITE r c)
         else Null)
      else
        (let isDarkSquare = ((r + c) mod 2 \<noteq> 0) in
         if isDarkSquare then
           (if r < fillRows then Occ (newPawn ''w'' WHITE r c)
            else if r \<ge> size - fillRows then Occ (newPawn ''r'' RED r c)
            else Null)
         else Null))"

definition createInitialBoard :: "CheckersVariant \<Rightarrow> Board" where
  "createInitialBoard variant =
     (let rules = getVariantRules variant;
          size = boardSize rules;
          fillRows = fillRowsOf variant size
      in map (\<lambda>r. map (\<lambda>c. initialCell rules fillRows r c) [0..size - 1]) [0..size - 1])"

section \<open>Static evaluation (evaluateBoard)\<close>

definition PST :: "int list list" where
  "PST =
     [ [0, 50, 0, 50, 0, 50, 0, 50],
       [40, 0, 45, 0, 45, 0, 40, 0],
       [0, 35, 0, 40, 0, 40, 0, 35],
       [30, 0, 35, 0, 35, 0, 30, 0],
       [0, 30, 0, 35, 0, 35, 0, 30],
       [25, 0, 30, 0, 30, 0, 25, 0],
       [0, 20, 0, 20, 0, 20, 0, 20],
       [15, 0, 15, 0, 15, 0, 15, 0] ]"

text \<open>\<open>pst i j\<close> is \<open>PST[i][j]\<close>; the source only reads it at indices clamped into 0..7.\<close>

definition pst :: "int \<Rightarrow> int \<Rightarrow> int" where
  "pst i j = PST ! nat i ! nat j"

text \<open>The value \<open>val\<close> that the loop body computes for piece \<open>p\<close> found at \<open>(r, c)\<close>.\<close>

definition pieceVal :: "int \<Rightarrow> int \<Rightarrow> int \<Rightarrow> Piece \<Rightarrow> int" where
  "pieceVal bsize r c p =
     (let isRed = (player p = RED);
          val = (if type p = KING then 3500 else 1000);
          val = val + (if isRed then pst (min r 7) (min c 7)
                       else pst (7 - min r 7) (7 - min c 7));
          val = (if type p = PAWN then val + (if isRed then 7 - r else r) * 30 else val);
          val = (if isRed \<and> r = bsize - 1 then val + 150 else val);
          val = (if \<not> isRed \<and> r = 0 then val + 150 else val)
      in val)"

text \<open>The accumulators \<open>(rMat, wMat, rCount, wCount)\<close> after the loop body at one cell.\<close>

definition evalStep ::
  "Board \<Rightarrow> int \<Rightarrow> Pos \<Rightarrow> int \<times> int \<times> int \<times> int \<Rightarrow> error + int \<times> int \<times> int \<times> int" where
  "evalStep board bsize rc acc =
     (case rc of (r, c) \<Rightarrow>
      case acc of (rMat, wMat, rCount, wCount) \<Rightarrow>
      case cell board r c of
        Inl e \<Rightarrow> Inl e
      | Inr None \<Rightarrow> Inr acc
      | Inr (Some p) \<Rightarrow>
          (if player p = RED then Inr (rMat + pieceVal bsize r c p, wMat, rCount + 1, wCount)
           else Inr (rMat, wMat + pieceVal bsize r c p, rCount, wCount + 1)))"

text \<open>A loop whose body may throw: the first error ends it.\<close>

fun foldE :: "('a \<Rightarrow> 's \<Rightarrow> error + 's) \<Rightarrow> 'a list \<Rightarrow> 's \<Rightarrow> error + 's" where
  "foldE f [] s = Inr s"
| "foldE f (x # xs) s = (case f x s of Inl e \<Rightarrow> Inl e | Inr s' \<Rightarrow> foldE f xs s')"

text \<open>The cells in the order of the nested \<open>for\<close> loops over \<open>r\<close> and \<open>c\<close>.\<close>

definition cells :: "int \<Rightarrow> Pos list" where
  "cells bsize = concat (map (\<lambda>r. map (\<lambda>c. (r, c)) [0..bsize - 1]) [0..bsize - 1])"

definition evaluateBoard :: "Board \<Rightarrow> CheckersVariant \<Rightarrow> error + int" where
  "evaluateBoard board variant =
     (let rules = getVariantRules variant;
          size = boardSize rules
      in case foldE (evalStep board size) (cells size) (0, 0, 0, 0) of
           Inl e \<Rightarrow> Inl e
         | Inr (rMat, wMat, rCount, wCount) \<Rightarrow>
             (let score = rMat - wMat + (rCount - wCount) * 25
              in Inr (if isLosingGoal rules then - score else score)))"

section \<open>Move generation (getValidMoves, getPieceMoves, findJumps)\<close>

subsection \<open>Loops whose body may throw\<close>

fun mapE :: "('a \<Rightarrow> error + 'b) \<Rightarrow> 'a list \<Rightarrow> error + 'b list" where
  "mapE f [] = Inr []"
| "mapE f (x # xs) =
     (case f x of
        Inl e \<Rightarrow> Inl e
      | Inr y \<Rightarrow> (case mapE f xs of Inl e \<Rightarrow> Inl e | Inr ys \<Rightarrow> Inr (y # ys)))"

text \<open>\<open>xs.forEach(x => acc.push(...f(x)))\<close>: the results of the body, appended in order.\<close>

definition concatE :: "('a \<Rightarrow> error + 'b list) \<Rightarrow> 'a list \<Rightarrow> error + 'b list" where
  "concatE f xs = (case mapE f xs of Inl e \<Rightarrow> Inl e | Inr yss \<Rightarrow> Inr (concat yss))"

text \<open>\<open>xs.filter(f)\<close> for a predicate that may throw.\<close>

fun filterE :: "('a \<Rightarrow> error + bool) \<Rightarrow> 'a list \<Rightarrow> error + 'a list" where
  "filterE f [] = Inr []"
| "filterE f (x # xs) =
     (case f x of
        Inl e \<Rightarrow> Inl e
      | Inr b \<Rightarrow>
          (case filterE f xs of
             Inl e \<Rightarrow> Inl e
           | Inr ys \<Rightarrow> Inr (if b then x # ys else ys)))"

lemma mapE_cong [fundef_cong]:
  "xs = ys \<Longrightarrow> (\<And>x. x \<in> set ys \<Longrightarrow> f x = g x) \<Longrightarrow> mapE f xs = mapE g ys"
  by (induction ys arbitrary: xs) (auto split: sum.splits)

lemma concatE_cong [fundef_cong]:
  "xs = ys \<Longrightarrow> (\<And>x. x \<in> set ys \<Longrightarrow> f x = g x) \<Longrightarrow> concatE f xs = concatE g ys"
  unfolding concatE_def by (simp cong: mapE_cong)

subsection \<open>JavaScript numbers\<close>

text \<open>The numbers of the engine are integers far below \<open>2 ^ 53\<close>, \<open>-Infinity\<close> and
  \<open>Infinity\<close>.\<close>

datatype number = NegInf | Fin int | PosInf

instantiation number :: linorder
begin

definition less_eq_number :: "number \<Rightarrow> number \<Rightarrow> bool" where
  "less_eq_number x y =
     (case x of
        NegInf \<Rightarrow> True
      | Fin a \<Rightarrow> (case y of NegInf \<Rightarrow> False | Fin b \<Rightarrow> a \<le> b | PosInf \<Rightarrow> True)
      | PosInf \<Rightarrow> (case y of PosInf \<Rightarrow> True | _ \<Rightarrow> False))"

definition less_number :: "number \<Rightarrow> number \<Rightarrow> bool" where
  "less_number x y = ((x::number) \<le> y \<and> \<not> y \<le> x)"

instance
proof
  fix x y z :: number
  show "(x < y) = (x \<le> y \<and> \<not> y \<le> x)"
    by (simp add: less_number_def)
  show "x \<le> x"
    by (cases x) (simp_all add: less_eq_number_def)
  show "x \<le> y \<Longrightarrow> y \<le> z \<Longrightarrow> x \<le> z"
    by (cases x; cases y; cases z) (simp_all add: less_eq_number_def)
  show "x \<le> y \<Longrightarrow> y \<le> x \<Longrightarrow> x = y"
    by (cases x; cases y) (simp_all add: less_eq_number_def)
  show "x \<le> y \<or> y \<le> x"
    by (cases x; cases y) (auto simp: less_eq_number_def)
qed

end

text \<open>\<open>Math.max(...xs)\<close>, which is \<open>-Infinity\<close> on no argument.\<close>

definition mathMax :: "number list \<Rightarrow> number" where
  "mathMax xs = fold max xs NegInf"

subsection \<open>Directions and rays\<close>

text \<open>\<open>m.captures?.length ?? 0\<close>.\<close>

definition capLen :: "Move \<Rightarrow> nat" where
  "capLen m = (case captures m of None \<Rightarrow> 0 | Some cs \<Rightarrow> length cs)"

text \<open>The array \<open>dirs\<close> of \<open>getPieceMoves\<close>.\<close>

definition dirsOf :: "VariantRules \<Rightarrow> Piece \<Rightarrow> (int \<times> int) list" where
  "dirsOf rules piece =
     (if isOrthogonal rules then
        [(0, 1), (0, - 1), (if player piece = RED then - 1 else 1, 0)]
      else if frisianCapturing rules then
        [(1, 1), (1, - 1), (- 1, 1), (- 1, - 1), (1, 0), (- 1, 0), (0, 1), (0, - 1)]
      else
        [(1, 1), (1, - 1), (- 1, 1), (- 1, - 1)])"

text \<open>The scan \<open>for (let d = 1; d < size; d++)\<close> of a long-range king in \<open>findJumps\<close>, up
  to the first piece on the ray: it ends at the edge of the board or at the first occupied
  cell, which it returns with the piece found there.\<close>

fun scanRay ::
  "Board \<Rightarrow> int \<Rightarrow> Pos \<Rightarrow> int \<times> int \<Rightarrow> int list \<Rightarrow> error + (Pos \<times> Piece) option" where
  "scanRay board bsize cur dir [] = Inr None"
| "scanRay board bsize cur dir (d # ds) =
     (let mr = fst cur + fst dir * d; mc = snd cur + snd dir * d in
      if mr < 0 \<or> mr \<ge> bsize \<or> mc < 0 \<or> mc \<ge> bsize then Inr None
      else
        (case cell board mr mc of
           Inl e \<Rightarrow> Inl e
         | Inr None \<Rightarrow> scanRay board bsize cur dir ds
         | Inr (Some mp) \<Rightarrow> Inr (Some ((mr, mc), mp))))"

text \<open>The cells \<open>(lr, lc)\<close> visited by the loop \<open>for (let l = 1; l < size; l++)\<close> behind a
  captured piece at \<open>m\<close>, up to its \<open>break\<close>. The source reads these cells between the
  recursive calls; reading them first gives the same result, since the recursive calls
  do not change the board and every failure is the same \<open>TypeError\<close>.\<close>

fun landings :: "Board \<Rightarrow> int \<Rightarrow> Pos \<Rightarrow> int \<times> int \<Rightarrow> int list \<Rightarrow> error + Pos list" where
  "landings board bsize m dir [] = Inr []"
| "landings board bsize m dir (l # ls) =
     (let lr = fst m + fst dir * l; lc = snd m + snd dir * l in
      if lr < 0 \<or> lr \<ge> bsize \<or> lc < 0 \<or> lc \<ge> bsize then Inr []
      else
        (case cell board lr lc of
           Inl e \<Rightarrow> Inl e
         | Inr (Some _) \<Rightarrow> Inr []
         | Inr None \<Rightarrow>
             (case landings board bsize m dir ls of
                Inl e \<Rightarrow> Inl e
              | Inr rest \<Rightarrow> Inr ((lr, lc) # rest))))"

text \<open>The cells of a board that hold a piece: the measure of \<open>findJumps\<close> counts those not
  yet captured.\<close>

definition occupied :: "Board \<Rightarrow> Pos set" where
  "occupied board = {(r, c). \<exists>p. cell board r c = Inr (Some p)}"

lemma finite_occupied: "finite (occupied board)"
proof -
  have "occupied board \<subseteq>
        (\<lambda>(i, j). (int i, int j)) ` (\<Union>i < length board. {i} \<times> {..< length (board ! i)})"
  proof
    fix rc assume rc: "rc \<in> occupied board"
    obtain r c where eq: "rc = (r, c)" by (cases rc)
    from rc eq obtain p where "cell board r c = Inr (Some p)"
      by (auto simp: occupied_def)
    then have "0 \<le> r" "nat r < length board" "0 \<le> c" "nat c < length (board ! nat r)"
      by (auto simp: cell_def Let_def pieceOf_def split: if_splits)
    then have mem: "(nat r, nat c) \<in> (\<Union>i < length board. {i} \<times> {..< length (board ! i)})"
      and img: "rc = (\<lambda>(i, j). (int i, int j)) (nat r, nat c)"
      using eq by auto
    from img mem show "rc \<in> (\<lambda>(i, j). (int i, int j)) `
                 (\<Union>i < length board. {i} \<times> {..< length (board ! i)})"
      by (rule image_eqI)
  qed
  then show ?thesis
    by (rule finite_subset) simp
qed

lemma occupied_less:
  assumes "cell board r c = Inr (Some p)" and "(r, c) \<notin> S"
  shows "card (occupied board - insert (r, c) S) < card (occupied board - S)"
proof (rule psubset_card_mono)
  show "finite (occupied board - S)"
    using finite_occupied by simp
  have "(r, c) \<in> occupied board - S"
    using assms by (auto simp: occupied_def)
  then show "occupied board - insert (r, c) S \<subset> occupied board - S"
    by auto
qed

lemma scanRay_Some:
  "scanRay board bsize cur dir ds = Inr (Some ((mr, mc), mp)) \<Longrightarrow>
   cell board mr mc = Inr (Some mp)"
  by (induction ds) (auto simp: Let_def split: if_splits sum.splits option.splits)

subsection \<open>Capture chains (findJumps)\<close>

text \<open>\<open>findJumps\<close> is a closure inside \<open>getPieceMoves\<close>; the board, the piece and the
  rules it captures are parameters here, and \<open>dirs\<close> is \<open>dirsOf rules piece\<close>. The
  body of \<open>dirs.forEach\<close> returns what it pushes to \<open>pieceJumps\<close>.\<close>

function findJumps ::
  "Board \<Rightarrow> Piece \<Rightarrow> VariantRules \<Rightarrow> Pos \<Rightarrow> PieceType \<Rightarrow> Pos list \<Rightarrow> error + Move list" where
  "findJumps board piece rules currentPos currentType visitedCaptures =
     (let size = boardSize rules in
      concatE (\<lambda>dir.
        (let dr = fst dir; dc = snd dir in
         if currentType = PAWN then
           (let isBack = (if player piece = RED then dr > 0 else dr < 0) in
            if isBack \<and> \<not> pawnCaptureBackwards rules \<and> \<not> isOrthogonal rules then Inr []
            else
              (let mr = fst currentPos + dr; mc = snd currentPos + dc;
                   er = fst currentPos + dr * 2; ec = snd currentPos + dc * 2 in
               if er \<ge> 0 \<and> er < size \<and> ec \<ge> 0 \<and> ec < size then
                 (case cell board mr mc of
                    Inl e \<Rightarrow> Inl e
                  | Inr None \<Rightarrow> Inr []
                  | Inr (Some mp) \<Rightarrow>
                      if player mp \<noteq> player piece then
                        (case cell board er ec of
                           Inl e \<Rightarrow> Inl e
                         | Inr (Some ep) \<Rightarrow> Inr []
                         | Inr None \<Rightarrow>
                             if (mr, mc) \<in> set visitedCaptures then Inr []
                             else if \<not> pawnCanCaptureKing rules \<and> type mp = KING then Inr []
                             else
                               (let newCaptures = visitedCaptures @ [(mr, mc)];
                                    kingRow = (if player piece = RED then 0 else size - 1);
                                    nextType =
                                      (if pawnKingTransformationMidJump rules \<and> er = kingRow
                                       then KING else currentType)
                                in case findJumps board piece rules (er, ec) nextType newCaptures of
                                     Inl e \<Rightarrow> Inl e
                                   | Inr deeperJumps \<Rightarrow>
                                       if length deeperJumps > 0 then Inr deeperJumps
                                       else Inr [\<lparr> from_pos = position piece, to_pos = (er, ec),
                                                   captures = Some newCaptures \<rparr>]))
                      else Inr [])
               else Inr []))
         else if kingLongRange rules then
           (case scanRay board size currentPos dir [1..size - 1] of
              Inl e \<Rightarrow> Inl e
            | Inr None \<Rightarrow> Inr []
            | Inr (Some found) \<Rightarrow>
                (let mr = fst (fst found); mc = snd (fst found); mp = snd found in
                 if player mp \<noteq> player piece \<and> (mr, mc) \<notin> set visitedCaptures then
                   (let tr = mr + dr; tc = mc + dc in
                    if tr \<ge> 0 \<and> tr < size \<and> tc \<ge> 0 \<and> tc < size then
                      (case cell board tr tc of
                         Inl e \<Rightarrow> Inl e
                       | Inr (Some tp) \<Rightarrow> Inr []
                       | Inr None \<Rightarrow>
                           (let newCaptures = visitedCaptures @ [(mr, mc)] in
                            if kingStopsAfterCapture rules then
                              (case findJumps board piece rules (tr, tc) currentType newCaptures of
                                 Inl e \<Rightarrow> Inl e
                               | Inr deeper \<Rightarrow>
                                   if length deeper > 0 then Inr deeper
                                   else Inr [\<lparr> from_pos = position piece, to_pos = (tr, tc),
                                               captures = Some newCaptures \<rparr>])
                            else
                              (case landings board size (mr, mc) dir [1..size - 1] of
                                 Inl e \<Rightarrow> Inl e
                               | Inr ls \<Rightarrow>
                                   concatE (\<lambda>l.
                                     case findJumps board piece rules l currentType newCaptures of
                                       Inl e \<Rightarrow> Inl e
                                     | Inr deeper \<Rightarrow>
                                         if length deeper > 0 then Inr deeper
                                         else Inr [\<lparr> from_pos = position piece, to_pos = l,
                                                     captures = Some newCaptures \<rparr>]) ls)))
                    else Inr [])
                 else Inr []))
         else
           (let mr = fst currentPos + dr; mc = snd currentPos + dc;
                er = fst currentPos + dr * 2; ec = snd currentPos + dc * 2 in
            if er \<ge> 0 \<and> er < size \<and> ec \<ge> 0 \<and> ec < size then
              (case cell board mr mc of
                 Inl e \<Rightarrow> Inl e
               | Inr None \<Rightarrow> Inr []
               | Inr (Some mp) \<Rightarrow>
                   if player mp \<noteq> player piece then
                     (case cell board er ec of
                        Inl e \<Rightarrow> Inl e
                      | Inr (Some ep) \<Rightarrow> Inr []
                      | Inr None \<Rightarrow>
                          if (mr, mc) \<notin> set visitedCaptures then
                            (let newCaptures = visitedCaptures @ [(mr, mc)] in
                             case findJumps board piece rules (er, ec) currentType newCaptures of
                               Inl e \<Rightarrow> Inl e
                             | Inr deeper \<Rightarrow>
                                 if length deeper > 0 then Inr deeper
                                 else Inr [\<lparr> from_pos = position piece, to_pos = (er, ec),
                                             captures = Some newCaptures \<rparr>])
                          else Inr [])
                   else Inr [])
            else Inr [])))
        (dirsOf rules piece))"
  by pat_completeness auto

termination
proof (relation "measure (\<lambda>(board, piece, rules, currentPos, currentType, visitedCaptures).
                   card (occupied board - set visitedCaptures))")
  show "wf (measure (\<lambda>(board, piece, rules, currentPos, currentType, visitedCaptures).
                   card (occupied board - set visitedCaptures)))"
    by simp
qed (auto intro: occupied_less occupied_less [OF scanRay_Some])

declare findJumps.simps [simp del]

subsection \<open>Step moves and getPieceMoves\<close>

text \<open>The loop \<open>for (let d = 1; d < size; d++)\<close> that slides a long-range king over empty
  cells, up to its \<open>break\<close>.\<close>

fun slide :: "Board \<Rightarrow> int \<Rightarrow> Piece \<Rightarrow> int \<times> int \<Rightarrow> int list \<Rightarrow> error + Move list" where
  "slide board bsize piece dir [] = Inr []"
| "slide board bsize piece dir (d # ds) =
     (let tr = fst (position piece) + fst dir * d; tc = snd (position piece) + snd dir * d in
      if tr \<ge> 0 \<and> tr < bsize \<and> tc \<ge> 0 \<and> tc < bsize then
        (case cell board tr tc of
           Inl e \<Rightarrow> Inl e
         | Inr (Some tp) \<Rightarrow> Inr []
         | Inr None \<Rightarrow>
             (case slide board bsize piece dir ds of
                Inl e \<Rightarrow> Inl e
              | Inr rest \<Rightarrow>
                  Inr (\<lparr> from_pos = position piece, to_pos = (tr, tc), captures = None \<rparr> # rest)))
      else Inr [])"

text \<open>The body of the second \<open>dirs.forEach\<close> of \<open>getPieceMoves\<close>: what it pushes to
  \<open>steps\<close> for one direction.\<close>

definition stepsDir :: "Board \<Rightarrow> Piece \<Rightarrow> VariantRules \<Rightarrow> int \<times> int \<Rightarrow> error + Move list" where
  "stepsDir board piece rules dir =
     (let size = boardSize rules; dr = fst dir; dc = snd dir;
          isBack = (if player piece = RED then dr > 0 else dr < 0);
          isSide = (dr = 0) in
      if type piece = PAWN \<and> (isBack \<or> (isSide \<and> \<not> isOrthogonal rules)) then Inr []
      else if type piece = KING \<and> kingLongRange rules then
        slide board size piece dir [1..size - 1]
      else
        (let tr = fst (position piece) + dr; tc = snd (position piece) + dc in
         if tr \<ge> 0 \<and> tr < size \<and> tc \<ge> 0 \<and> tc < size then
           (case cell board tr tc of
              Inl e \<Rightarrow> Inl e
            | Inr (Some tp) \<Rightarrow> Inr []
            | Inr None \<Rightarrow>
                Inr [\<lparr> from_pos = position piece, to_pos = (tr, tc), captures = None \<rparr>])
         else Inr []))"

text \<open>\<open>getPieceMoves\<close> returns the pair \<open>(jumps, steps)\<close>.\<close>

definition getPieceMoves ::
  "Board \<Rightarrow> Piece \<Rightarrow> VariantRules \<Rightarrow> error + Move list \<times> Move list" where
  "getPieceMoves board piece rules =
     (case findJumps board piece rules (position piece) (type piece) [] of
        Inl e \<Rightarrow> Inl e
      | Inr jumps \<Rightarrow>
          (case concatE (stepsDir board piece rules) (dirsOf rules piece) of
             Inl e \<Rightarrow> Inl e
           | Inr steps \<Rightarrow> Inr (jumps, steps)))"

subsection \<open>getValidMoves\<close>

text \<open>The body of the double loop of \<open>getValidMoves\<close> at one cell, on the accumulators
  \<open>(jumpMoves, stepMoves)\<close>. The parameter \<open>player\<close> of the source is \<open>pl\<close>.\<close>

definition collectStep ::
  "Board \<Rightarrow> Player \<Rightarrow> VariantRules \<Rightarrow> Pos \<Rightarrow> Move list \<times> Move list
   \<Rightarrow> error + Move list \<times> Move list" where
  "collectStep board pl rules rc acc =
     (case cell board (fst rc) (snd rc) of
        Inl e \<Rightarrow> Inl e
      | Inr None \<Rightarrow> Inr acc
      | Inr (Some piece) \<Rightarrow>
          if player piece = pl then
            (case getPieceMoves board piece rules of
               Inl e \<Rightarrow> Inl e
             | Inr js \<Rightarrow> Inr (fst acc @ fst js, snd acc @ snd js))
          else Inr acc)"

text \<open>\<open>(jumpMoves, stepMoves)\<close> after the double loop.\<close>

definition collectMoves ::
  "Board \<Rightarrow> Player \<Rightarrow> VariantRules \<Rightarrow> error + Move list \<times> Move list" where
  "collectMoves board pl rules =
     foldE (collectStep board pl rules) (cells (boardSize rules)) ([], [])"

text \<open>\<open>board[pos.r][pos.c]?.type === PieceType.KING\<close>.\<close>

definition isKingAt :: "Board \<Rightarrow> Pos \<Rightarrow> error + bool" where
  "isKingAt board pos =
     (case cell board (fst pos) (snd pos) of
        Inl e \<Rightarrow> Inl e
      | Inr None \<Rightarrow> Inr False
      | Inr (Some p) \<Rightarrow> Inr (type p = KING))"

text \<open>The local function \<open>getKingCount\<close>.\<close>

definition getKingCount :: "Board \<Rightarrow> Move \<Rightarrow> error + nat" where
  "getKingCount board m =
     (case captures m of
        None \<Rightarrow> Inr 0
      | Some cs \<Rightarrow>
          (case filterE (isKingAt board) cs of Inl e \<Rightarrow> Inl e | Inr ks \<Rightarrow> Inr (length ks)))"

text \<open>The three filters applied to a non-empty \<open>jumpMoves\<close>, in the order of the source.\<close>

definition kingPriorityFilter :: "VariantRules \<Rightarrow> Board \<Rightarrow> Move list \<Rightarrow> error + Move list" where
  "kingPriorityFilter rules board jumpMoves =
     (if kingCapturePriority rules then
        (case filterE (\<lambda>m. isKingAt board (from_pos m)) jumpMoves of
           Inl e \<Rightarrow> Inl e
         | Inr kingJumps \<Rightarrow> Inr (if length kingJumps > 0 then kingJumps else jumpMoves))
      else Inr jumpMoves)"

definition majorityFilter :: "VariantRules \<Rightarrow> Move list \<Rightarrow> Move list" where
  "majorityFilter rules filtered =
     (if majorityCaptureRequired rules then
        (let maxQty = mathMax (map (\<lambda>m. Fin (int (capLen m))) filtered)
         in filter (\<lambda>m. Fin (int (capLen m)) = maxQty) filtered)
      else filtered)"

definition qualityFilter :: "VariantRules \<Rightarrow> Board \<Rightarrow> Move list \<Rightarrow> error + Move list" where
  "qualityFilter rules board filtered =
     (if qualityCaptureRequired rules then
        (case mapE (getKingCount board) filtered of
           Inl e \<Rightarrow> Inl e
         | Inr counts \<Rightarrow>
             (let maxKings = mathMax (map (\<lambda>k. Fin (int k)) counts)
              in filterE (\<lambda>m. case getKingCount board m of
                                Inl e \<Rightarrow> Inl e
                              | Inr k \<Rightarrow> Inr (Fin (int k) = maxKings)) filtered))
      else Inr filtered)"

definition getValidMoves :: "Board \<Rightarrow> Player \<Rightarrow> CheckersVariant \<Rightarrow> error + Move list" where
  "getValidMoves board pl variant =
     (let rules = getVariantRules variant in
      case collectMoves board pl rules of
        Inl e \<Rightarrow> Inl e
      | Inr (jumpMoves, stepMoves) \<Rightarrow>
          if length jumpMoves > 0 then
            (case kingPriorityFilter rules board jumpMoves of
               Inl e \<Rightarrow> Inl e
             | Inr filtered \<Rightarrow> qualityFilter rules board (majorityFilter rules filtered))
          else Inr stepMoves)"

section \<open>Applying a move and serialising a board (applyMove, serializeBoard)\<close>

text \<open>\<open>applyMove\<close> works on a copy of the rows (\<open>board.map(row => row.slice())\<close>), so the
  writes never touch the argument; lists are values, the copy is the board itself.\<close>

definition applyMove :: "Board \<Rightarrow> Move \<Rightarrow> CheckersVariant \<Rightarrow> error + Board" where
  "applyMove board move variant =
     (let rules = getVariantRules variant; newBoard = board in
      case cell newBoard (fst (from_pos move)) (snd (from_pos move)) of
        Inl e \<Rightarrow> Inl e
      | Inr None \<Rightarrow> Inr board
      | Inr (Some piece) \<Rightarrow>
          (let newPiece = piece\<lparr> position := to_pos move \<rparr>;
               kingRow = (if player piece = RED then 0 else boardSize rules - 1);
               newPiece = (if fst (to_pos move) = kingRow then newPiece\<lparr> type := KING \<rparr>
                           else newPiece)
           in case setCell newBoard (fst (to_pos move)) (snd (to_pos move)) (Occ newPiece) of
                Inl e \<Rightarrow> Inl e
              | Inr b1 \<Rightarrow>
                  (case setCell b1 (fst (from_pos move)) (snd (from_pos move)) Null of
                     Inl e \<Rightarrow> Inl e
                   | Inr b2 \<Rightarrow>
                       (case captures move of
                          None \<Rightarrow> Inr b2
                        | Some cs \<Rightarrow> foldE (\<lambda>c b. setCell b (fst c) (snd c) Null) cs b2))))"

text \<open>One character per cell; \<open>map\<close> skips a hole and \<open>join\<close> renders it as the empty
  string.\<close>

definition cellString :: "Cell \<Rightarrow> string" where
  "cellString x =
     (case x of
        Hole \<Rightarrow> []
      | Null \<Rightarrow> ''.''
      | Occ p \<Rightarrow>
          (if player p = RED then (if type p = KING then ''R'' else ''r'')
           else (if type p = KING then ''W'' else ''w'')))"

text \<open>\<open>xs.join(sep)\<close>.\<close>

fun joinWith :: "string \<Rightarrow> string list \<Rightarrow> string" where
  "joinWith sep [] = []"
| "joinWith sep [x] = x"
| "joinWith sep (x # y # ys) = x @ sep @ joinWith sep (y # ys)"

definition serializeBoard :: "Board \<Rightarrow> string" where
  "serializeBoard board =
     joinWith [CHR 0x0A] (map (\<lambda>row. joinWith [] (map cellString row)) board)"

section \<open>Search (quiesce, alphaBeta, getBestMove)\<close>

subsection \<open>The transposition table\<close>

datatype Flag = EXACT | LOWER | UPPER

text \<open>The fields \<open>depth\<close>, \<open>score\<close> and \<open>flag\<close> of a table entry.\<close>

record TTEntry =
  entryDepth :: nat
  entryScore :: number
  entryFlag :: Flag

text \<open>The module-level \<open>Map\<close> is a list of keys with their entries, passed in and returned
  by every function that reads or writes it. \<open>ttSet\<close> keeps one entry per key, so from
  the empty table on the length of the list is the \<open>size\<close> of the \<open>Map\<close>.\<close>

type_synonym TT = "(string \<times> TTEntry) list"

definition ttGet :: "TT \<Rightarrow> string \<Rightarrow> TTEntry option" where
  "ttGet tt key = map_of tt key"

fun ttSet :: "TT \<Rightarrow> string \<Rightarrow> TTEntry \<Rightarrow> TT" where
  "ttSet [] key e = [(key, e)]"
| "ttSet ((k, e') # tt) key e = (if k = key then (key, e) # tt else (k, e') # ttSet tt key e)"

definition ttSize :: "TT \<Rightarrow> nat" where
  "ttSize tt = length tt"

text \<open>The two size thresholds: \<open>alphaBeta\<close> stores while \<open>size < 50000\<close>, \<open>getBestMove\<close>
  clears when \<open>size > 20000\<close>.\<close>

definition storeThreshold :: nat where
  "storeThreshold = 50000"

definition clearThreshold :: nat where
  "clearThreshold = 20000"

text \<open>The key \<open>serializeBoard(board) + isMax + player\<close>: string concatenation renders the
  boolean as \<open>true\<close> or \<open>false\<close> and the player as the string of its enum member.\<close>

definition ttKey :: "Board \<Rightarrow> bool \<Rightarrow> Player \<Rightarrow> string" where
  "ttKey board isMax pl =
     serializeBoard board @ (if isMax then ''true'' else ''false'')
       @ (if pl = RED then ''RED'' else ''WHITE'')"

subsection \<open>quiesce\<close>

text \<open>\<open>quiesce\<close> and its \<open>for\<close> loop over the capture moves; the loop returns \<open>alpha\<close> at a
  maximising node and \<open>beta\<close> at a minimising one. The parameter \<open>depth\<close> counts up from
  its default 0.\<close>

function quiesce ::
    "Board \<Rightarrow> number \<Rightarrow> number \<Rightarrow> bool \<Rightarrow> Player \<Rightarrow> CheckersVariant \<Rightarrow> nat \<Rightarrow> error + number"
  and quiesceLoop ::
    "Board \<Rightarrow> Move list \<Rightarrow> number \<Rightarrow> number \<Rightarrow> bool \<Rightarrow> CheckersVariant \<Rightarrow> nat \<Rightarrow> error + number"
  where
  "quiesce board alpha beta isMax pl variant depth =
     (case evaluateBoard board variant of
        Inl e \<Rightarrow> Inl e
      | Inr sp \<Rightarrow>
          (let standPat = Fin sp in
           if depth > 4 then Inr standPat
           else if isMax then
             (if standPat \<ge> beta then Inr beta
              else
                (let alpha = (if alpha < standPat then standPat else alpha) in
                 case getValidMoves board pl variant of
                   Inl e \<Rightarrow> Inl e
                 | Inr ms \<Rightarrow>
                     quiesceLoop board (filter (\<lambda>m. capLen m > 0) ms) alpha beta isMax variant
                       depth))
           else
             (if standPat \<le> alpha then Inr alpha
              else
                (let beta = (if beta > standPat then standPat else beta) in
                 case getValidMoves board pl variant of
                   Inl e \<Rightarrow> Inl e
                 | Inr ms \<Rightarrow>
                     quiesceLoop board (filter (\<lambda>m. capLen m > 0) ms) alpha beta isMax variant
                       depth))))"
| "quiesceLoop board [] alpha beta isMax variant depth = Inr (if isMax then alpha else beta)"
| "quiesceLoop board (move # rest) alpha beta isMax variant depth =
     (case applyMove board move variant of
        Inl e \<Rightarrow> Inl e
      | Inr newBoard \<Rightarrow>
          if isMax then
            (case quiesce newBoard alpha beta False WHITE variant (depth + 1) of
               Inl e \<Rightarrow> Inl e
             | Inr v \<Rightarrow>
                 (let alpha = max alpha v in
                  if alpha \<ge> beta then Inr alpha
                  else quiesceLoop board rest alpha beta isMax variant depth))
          else
            (case quiesce newBoard alpha beta True RED variant (depth + 1) of
               Inl e \<Rightarrow> Inl e
             | Inr v \<Rightarrow>
                 (let beta = min beta v in
                  if beta \<le> alpha then Inr beta
                  else quiesceLoop board rest alpha beta isMax variant depth)))"
  by pat_completeness auto

termination
  by (relation "inv_image (less_than <*lex*> less_than)
        (\<lambda>x. case x of
           Inl (board, alpha, beta, isMax, pl, variant, depth) \<Rightarrow>
             (if depth \<le> 4 then 2 * (5 - depth) + 2 else 0, 0)
         | Inr (board, moves, alpha, beta, isMax, variant, depth) \<Rightarrow>
             (if depth \<le> 4 then 2 * (5 - depth) + 1 else 1, length moves))")
    auto

declare quiesce.simps [simp del]

subsection \<open>alphaBeta\<close>

text \<open>The table lookup at the head of \<open>alphaBeta\<close>: either the score it returns at once, or
  the window \<open>(alpha, beta)\<close> it goes on with.\<close>

definition probe ::
  "TTEntry option \<Rightarrow> nat \<Rightarrow> number \<Rightarrow> number \<Rightarrow> number + number \<times> number" where
  "probe cached depth alpha beta =
     (case cached of
        None \<Rightarrow> Inr (alpha, beta)
      | Some e \<Rightarrow>
          if entryDepth e \<ge> depth then
            (if entryFlag e = EXACT then Inl (entryScore e)
             else
               (let alpha = (if entryFlag e = LOWER then max alpha (entryScore e) else alpha);
                    beta = (if entryFlag e = UPPER then min beta (entryScore e) else beta)
                in if alpha \<ge> beta then Inl (entryScore e) else Inr (alpha, beta)))
          else Inr (alpha, beta))"

text \<open>\<open>moves.sort((a, b) => (b.captures?.length || 0) - (a.captures?.length || 0))\<close>: the
  sort of the language is stable, as is \<open>sort_key\<close>.\<close>

definition ordered :: "Move list \<Rightarrow> Move list" where
  "ordered moves = sort_key (\<lambda>m. - int (capLen m)) moves"

text \<open>The tag of the entry that \<open>alphaBeta\<close> stores, from \<open>best\<close> and the variables
  \<open>alpha\<close> and \<open>beta\<close> as they are after the loop.\<close>

definition flagOf :: "number \<Rightarrow> number \<Rightarrow> number \<Rightarrow> Flag" where
  "flagOf best alpha beta = (if best \<le> alpha then UPPER else if best \<ge> beta then LOWER else EXACT)"

text \<open>\<open>alphaBeta\<close> and its \<open>for\<close> loop, which returns \<open>(best, alpha, beta)\<close>. Both return the
  table with the result, also when they throw. The search depth is a natural number:
  \<open>getBestMove\<close> starts at \<open>depth - 1\<close> with \<open>depth\<close> at least 2, and every recursive call
  is made below the test \<open>depth === 0\<close>. The loop takes the depth of the recursive calls,
  \<open>depth - 1\<close>.\<close>

function alphaBeta ::
    "TT \<Rightarrow> Board \<Rightarrow> nat \<Rightarrow> number \<Rightarrow> number \<Rightarrow> bool \<Rightarrow> Player \<Rightarrow> CheckersVariant
     \<Rightarrow> (error + number) \<times> TT"
  and alphaBetaLoop ::
    "TT \<Rightarrow> Board \<Rightarrow> Move list \<Rightarrow> nat \<Rightarrow> number \<Rightarrow> number \<Rightarrow> number \<Rightarrow> bool \<Rightarrow> Player
     \<Rightarrow> CheckersVariant \<Rightarrow> (error + number \<times> number \<times> number) \<times> TT"
  where
  "alphaBeta tt board depth alpha beta isMax pl variant =
     (let key = ttKey board isMax pl;
          cached = ttGet tt key in
      case probe cached depth alpha beta of
        Inl s \<Rightarrow> (Inr s, tt)
      | Inr window \<Rightarrow>
          (let alpha = fst window; beta = snd window in
           case getValidMoves board pl variant of
             Inl e \<Rightarrow> (Inl e, tt)
           | Inr moves \<Rightarrow>
               if depth = 0 \<or> length moves = 0 then
                 (quiesce board alpha beta isMax pl variant 0, tt)
               else
                 (let best = (if isMax then NegInf else PosInf) in
                  case alphaBetaLoop tt board (ordered moves) (depth - 1) best alpha beta isMax
                         pl variant of
                    (Inl e, tt') \<Rightarrow> (Inl e, tt')
                  | (Inr (best, alpha, beta), tt') \<Rightarrow>
                      (Inr best,
                       if ttSize tt' < storeThreshold then
                         ttSet tt' key
                           \<lparr> entryDepth = depth, entryScore = best,
                             entryFlag = flagOf best alpha beta \<rparr>
                       else tt'))))"
| "alphaBetaLoop tt board [] d best alpha beta isMax pl variant = (Inr (best, alpha, beta), tt)"
| "alphaBetaLoop tt board (move # rest) d best alpha beta isMax pl variant =
     (case applyMove board move variant of
        Inl e \<Rightarrow> (Inl e, tt)
      | Inr newBoard \<Rightarrow>
          (case alphaBeta tt newBoard d alpha beta (\<not> isMax)
                  (if pl = RED then WHITE else RED) variant of
             (Inl e, tt') \<Rightarrow> (Inl e, tt')
           | (Inr score, tt') \<Rightarrow>
               (let best = (if isMax then max best score else min best score);
                    alpha = (if isMax then max alpha best else alpha);
                    beta = (if isMax then beta else min beta best)
                in if beta \<le> alpha then (Inr (best, alpha, beta), tt')
                   else alphaBetaLoop tt' board rest d best alpha beta isMax pl variant)))"
  by pat_completeness auto

termination
  by (relation "inv_image (less_than <*lex*> less_than)
        (\<lambda>x. case x of
           Inl (tt, board, depth, alpha, beta, isMax, pl, variant) \<Rightarrow> (2 * depth, 0)
         | Inr (tt, board, moves, d, best, alpha, beta, isMax, pl, variant) \<Rightarrow>
             (2 * d + 1, length moves))")
    auto

declare alphaBeta.simps [simp del]

subsection \<open>getBestMove\<close>

datatype Winner = WinnerIs Player | DRAW

text \<open>The fields of \<open>GameState\<close> carry the prefix \<open>g\<close>: \<open>board\<close>, \<open>turn\<close> and \<open>variant\<close>
  name variables everywhere else.\<close>

record GameState =
  gBoard :: Board
  gTurn :: Player
  gWinner :: "Winner option"
  gHistory :: "Move list"
  gAiLevel :: int
  gVariant :: CheckersVariant
  gMode :: AppMode

text \<open>The \<open>for\<close> loop of \<open>getBestMove\<close> on \<open>(bestMove, bestScore)\<close>; \<open>d\<close> is \<open>depth - 1\<close>.\<close>

fun bestMoveLoop ::
  "TT \<Rightarrow> GameState \<Rightarrow> Move list \<Rightarrow> nat \<Rightarrow> Move \<Rightarrow> number \<Rightarrow> (error + Move) \<times> TT" where
  "bestMoveLoop tt gs [] d bestMove bestScore = (Inr bestMove, tt)"
| "bestMoveLoop tt gs (move # rest) d bestMove bestScore =
     (case applyMove (gBoard gs) move (gVariant gs) of
        Inl e \<Rightarrow> (Inl e, tt)
      | Inr newBoard \<Rightarrow>
          (case alphaBeta tt newBoard d NegInf PosInf (gTurn gs \<noteq> RED)
                  (if gTurn gs = RED then WHITE else RED) (gVariant gs) of
             (Inl e, tt') \<Rightarrow> (Inl e, tt')
           | (Inr score, tt') \<Rightarrow>
               if (gTurn gs = RED \<and> score > bestScore) \<or> (gTurn gs = WHITE \<and> score < bestScore)
               then bestMoveLoop tt' gs rest d move score
               else bestMoveLoop tt' gs rest d bestMove bestScore))"

text \<open>\<open>getBestMove\<close> on the table it finds; \<open>None\<close> is the result \<open>null\<close>.\<close>

definition getBestMove :: "TT \<Rightarrow> GameState \<Rightarrow> (error + Move option) \<times> TT" where
  "getBestMove tt0 gs =
     (let tt = (if ttSize tt0 > clearThreshold then [] else tt0);
          lv = gAiLevel gs;
          depth = depthOfLevel lv in
      case getValidMoves (gBoard gs) (gTurn gs) (gVariant gs) of
        Inl e \<Rightarrow> (Inl e, tt)
      | Inr moves \<Rightarrow>
          (case moves of
             [] \<Rightarrow> (Inr None, tt)
           | m0 # ms \<Rightarrow>
               (case bestMoveLoop tt gs moves (depth - 1) m0
                       (if gTurn gs = RED then NegInf else PosInf) of
                  (Inl e, tt') \<Rightarrow> (Inl e, tt')
                | (Inr bestMove, tt') \<Rightarrow> (Inr (Some bestMove), tt'))))"

subsection \<open>The calls that the search makes\<close>

text \<open>A call of \<open>alphaBeta\<close> or of \<open>quiesce\<close>, with its board, its \<open>depth\<close>, its flag
  \<open>isMax\<close> and its side to move. The window and the table are left out: which calls are
  made may depend on them (a cut-off, a cached score), never the arguments listed here.\<close>

datatype Call =
    AlphaBetaCall Board nat bool Player
  | QuiesceCall Board bool Player nat

fun callIsMax :: "Call \<Rightarrow> bool" where
  "callIsMax (AlphaBetaCall board depth isMax pl) = isMax"
| "callIsMax (QuiesceCall board isMax pl depth) = isMax"

fun callPlayer :: "Call \<Rightarrow> Player" where
  "callPlayer (AlphaBetaCall board depth isMax pl) = pl"
| "callPlayer (QuiesceCall board isMax pl depth) = pl"

text \<open>The recursive call sites that search the board after a move: the loop of
  \<open>alphaBeta\<close>, and the two loops of \<open>quiesce\<close> with their literal \<open>Player.WHITE\<close> and
  \<open>Player.RED\<close>. Every move of the list is a candidate; a cut-off only skips some.\<close>

inductive moveCall :: "CheckersVariant \<Rightarrow> Call \<Rightarrow> Call \<Rightarrow> bool" where
  alphaBeta_rec:
    "getValidMoves board pl variant = Inr moves \<Longrightarrow> \<not> (depth = 0 \<or> length moves = 0) \<Longrightarrow>
     move \<in> set (ordered moves) \<Longrightarrow> applyMove board move variant = Inr newBoard \<Longrightarrow>
     moveCall variant (AlphaBetaCall board depth isMax pl)
       (AlphaBetaCall newBoard (depth - 1) (\<not> isMax) (if pl = RED then WHITE else RED))"
| quiesce_max:
    "\<not> depth > 4 \<Longrightarrow> isMax \<Longrightarrow> getValidMoves board pl variant = Inr ms \<Longrightarrow>
     move \<in> set (filter (\<lambda>m. capLen m > 0) ms) \<Longrightarrow>
     applyMove board move variant = Inr newBoard \<Longrightarrow>
     moveCall variant (QuiesceCall board isMax pl depth)
       (QuiesceCall newBoard False WHITE (depth + 1))"
| quiesce_min:
    "\<not> depth > 4 \<Longrightarrow> \<not> isMax \<Longrightarrow> getValidMoves board pl variant = Inr ms \<Longrightarrow>
     move \<in> set (filter (\<lambda>m. capLen m > 0) ms) \<Longrightarrow>
     applyMove board move variant = Inr newBoard \<Longrightarrow>
     moveCall variant (QuiesceCall board isMax pl depth)
       (QuiesceCall newBoard True RED (depth + 1))"

text \<open>The call of \<open>quiesce\<close> at a leaf of \<open>alphaBeta\<close>, on the same board.\<close>

inductive leafCall :: "CheckersVariant \<Rightarrow> Call \<Rightarrow> Call \<Rightarrow> bool" where
  alphaBeta_leaf:
    "getValidMoves board pl variant = Inr moves \<Longrightarrow> depth = 0 \<or> length moves = 0 \<Longrightarrow>
     leafCall variant (AlphaBetaCall board depth isMax pl) (QuiesceCall board isMax pl 0)"

text \<open>The calls of \<open>alphaBeta\<close> in the loop of \<open>getBestMove\<close>.\<close>

inductive rootCall :: "GameState \<Rightarrow> Call \<Rightarrow> bool" where
  getBestMove_call:
    "getValidMoves (gBoard gs) (gTurn gs) (gVariant gs) = Inr moves \<Longrightarrow> move \<in> set moves \<Longrightarrow>
     applyMove (gBoard gs) move (gVariant gs) = Inr newBoard \<Longrightarrow>
     rootCall gs
       (AlphaBetaCall newBoard (depthOfLevel (gAiLevel gs) - 1) (gTurn gs \<noteq> RED)
          (if gTurn gs = RED then WHITE else RED))"

text \<open>The calls reachable from \<open>getBestMove\<close> on a game state.\<close>

inductive reachable :: "GameState \<Rightarrow> Call \<Rightarrow> bool" where
  from_root: "rootCall gs c \<Longrightarrow> reachable gs c"
| by_move: "reachable gs c \<Longrightarrow> moveCall (gVariant gs) c c' \<Longrightarrow> reachable gs c'"
| by_leaf: "reachable gs c \<Longrightarrow> leafCall (gVariant gs) c c' \<Longrightarrow> reachable gs c'"

section \<open>Notions used to state the properties\<close>

subsection \<open>Rows filled by the initial layout\<close>

text \<open>The rows of a board that hold a piece of a side, what it means for such a row to be
  filled (on its dark squares only, or on every square), and the number of rows per side
  that the specification announces.\<close>

definition rowHas :: "Player \<Rightarrow> Cell list \<Rightarrow> bool" where
  "rowHas pl row = list_ex (\<lambda>x. case pieceOf x of Some p \<Rightarrow> player p = pl | None \<Rightarrow> False) row"

definition rowsOf :: "Player \<Rightarrow> Board \<Rightarrow> nat list" where
  "rowsOf pl board = filter (\<lambda>r. rowHas pl (board ! r)) [0..<length board]"

definition pawnOf :: "Player \<Rightarrow> Cell \<Rightarrow> bool" where
  "pawnOf pl x = (case x of Occ p \<Rightarrow> player p = pl \<and> type p = PAWN | _ \<Rightarrow> False)"

definition rowFilled :: "bool \<Rightarrow> Player \<Rightarrow> nat \<Rightarrow> Cell list \<Rightarrow> bool" where
  "rowFilled darkOnly pl r row =
     list_all (\<lambda>(c, x). if darkOnly \<and> even (r + c) then x = Null else pawnOf pl x)
       (enumerate 0 row)"

definition rowsFilled :: "bool \<Rightarrow> Player \<Rightarrow> Board \<Rightarrow> bool" where
  "rowsFilled darkOnly pl board =
     list_all (\<lambda>r. rowFilled darkOnly pl r (board ! r)) (rowsOf pl board)"

definition claimedRows :: "CheckersVariant \<Rightarrow> nat" where
  "claimedRows v =
     (if v = THAI then 2
      else if boardSize (getVariantRules v) = 8 then 3
      else if boardSize (getVariantRules v) = 10 then 4
      else 5)"

definition squareBoard :: "nat \<Rightarrow> Board \<Rightarrow> bool" where
  "squareBoard n board = (length board = n \<and> list_all (\<lambda>row. length row = n) board)"

subsection \<open>The side-swapped mirror of a board\<close>

text \<open>The mirror of \<open>board\<close> on an \<open>n\<close> by \<open>n\<close> grid: cell \<open>(r, c)\<close> holds the piece
  of cell \<open>(n - 1 - r, n - 1 - c)\<close>, of the same rank, given to the other side.\<close>

definition mirrorCell :: "int \<Rightarrow> Board \<Rightarrow> int \<Rightarrow> int \<Rightarrow> Cell" where
  "mirrorCell n board r c =
     (case cell board (n - 1 - r) (n - 1 - c) of
        Inr (Some p) \<Rightarrow> Occ (p\<lparr> player := opponent (player p), position := (r, c) \<rparr>)
      | _ \<Rightarrow> Null)"

definition mirrorBoard :: "int \<Rightarrow> Board \<Rightarrow> Board" where
  "mirrorBoard n board = map (\<lambda>r. map (\<lambda>c. mirrorCell n board r c) [0..n - 1]) [0..n - 1]"

text \<open>What one cell adds to \<open>rMat\<close>, \<open>wMat\<close>, \<open>rCount\<close> and \<open>wCount\<close>.\<close>

definition rv :: "Board \<Rightarrow> int \<Rightarrow> Pos \<Rightarrow> int" where
  "rv board n rc = (case cell board (fst rc) (snd rc) of Inr (Some p) \<Rightarrow> if player p = RED then pieceVal n (fst rc) (snd rc) p else 0 | _ \<Rightarrow> 0)"

definition wv :: "Board \<Rightarrow> int \<Rightarrow> Pos \<Rightarrow> int" where
  "wv board n rc = (case cell board (fst rc) (snd rc) of Inr (Some p) \<Rightarrow> if player p = RED then 0 else pieceVal n (fst rc) (snd rc) p | _ \<Rightarrow> 0)"

definition rn :: "Board \<Rightarrow> Pos \<Rightarrow> int" where
  "rn board rc = (case cell board (fst rc) (snd rc) of Inr (Some p) \<Rightarrow> if player p = RED then 1 else 0 | _ \<Rightarrow> 0)"

definition wn :: "Board \<Rightarrow> Pos \<Rightarrow> int" where
  "wn board rc = (case cell board (fst rc) (snd rc) of Inr (Some p) \<Rightarrow> if player p = RED then 0 else 1 | _ \<Rightarrow> 0)"

subsection \<open>Example boards\<close>

definition mkPiece :: "Player \<Rightarrow> PieceType \<Rightarrow> int \<Rightarrow> int \<Rightarrow> Piece" where
  "mkPiece pl ty r c =
     \<lparr> pid = (if pl = RED then ''r'' else ''w'') @ ''-'' @ showInt r @ ''-'' @ showInt c,
       player = pl, type = ty, position = (r, c) \<rparr>"

text \<open>\<open>place b ps\<close> puts on board \<open>b\<close> the pieces listed in \<open>ps\<close>, each on the cell of
  its position.\<close>

fun place :: "Board \<Rightarrow> (Player \<times> PieceType \<times> int \<times> int) list \<Rightarrow> Board" where
  "place b [] = b"
| "place b ((pl, ty, r, c) # ps) =
     (let row = (b ! nat r)[nat c := Occ (mkPiece pl ty r c)]
      in place (b[nat r := row]) ps)"

definition emptyBoard :: "nat \<Rightarrow> Board" where
  "emptyBoard n = replicate n (replicate n Null)"

text \<open>A 10 by 10 board with one RED man on \<open>(1, 0)\<close>, and an 8 by 8 board with a RED man on
  \<open>(5, 2)\<close> and a WHITE king on \<open>(0, 1)\<close>.\<close>

definition cexBoard :: Board where
  "cexBoard = place (emptyBoard 10) [(RED, PAWN, 1, 0)]"

definition wBoard :: Board where
  "wBoard = place (emptyBoard 8) [(RED, PAWN, 5, 2), (WHITE, KING, 0, 1)]"

subsection \<open>Links of a capture chain\<close>

text \<open>A move \<open>m\<close> found by \<open>findJumps\<close> from the captures \<open>visited\<close> extends them by a
  cell \<open>x\<close> that holds a piece and is not yet captured: either \<open>m\<close> ends there, or it
  belongs to the chains found from \<open>visited @ [x]\<close>.\<close>

definition chainLink :: "Board \<Rightarrow> Piece \<Rightarrow> VariantRules \<Rightarrow> Pos list \<Rightarrow> Move \<Rightarrow> bool" where
  "chainLink board piece rules visited m =
     (\<exists>x mp. x \<notin> set visited \<and> cell board (fst x) (snd x) = Inr (Some mp) \<and>
           ((\<exists>dest. m = \<lparr> from_pos = position piece, to_pos = dest,
                         captures = Some (visited @ [x]) \<rparr>)
            \<or> (\<exists>pos' ty' ms'. findJumps board piece rules pos' ty' (visited @ [x]) = Inr ms'
                  \<and> m \<in> set ms')))"

text \<open>What \<open>getPieceMoves\<close> returns: chains that capture at least one cell and no cell
  twice, and steps that capture nothing.\<close>

definition isChain :: "Move \<Rightarrow> bool" where
  "isChain m = (case captures m of None \<Rightarrow> False | Some cs \<Rightarrow> cs \<noteq> [] \<and> distinct cs)"

definition isStep :: "Move \<Rightarrow> bool" where
  "isStep m = (captures m = None)"

subsection \<open>Well-formed boards\<close>

text \<open>A cell within the \<open>n\<close> by \<open>n\<close> grid; a board that has at least \<open>n\<close> rows and on which
  every piece of the grid carries the position of its cell; a move whose source row and
  captured cells can be read on the board.\<close>

definition inRange :: "int \<Rightarrow> Pos \<Rightarrow> bool" where
  "inRange n pos = (0 \<le> fst pos \<and> fst pos < n \<and> 0 \<le> snd pos \<and> snd pos < n)"

definition wellFormed :: "int \<Rightarrow> Board \<Rightarrow> bool" where
  "wellFormed n board =
     (n \<le> int (length board) \<and>
      list_all (\<lambda>rc. case cell board (fst rc) (snd rc) of
                       Inr (Some p) \<Rightarrow> position p = rc
                     | _ \<Rightarrow> True) (cells n))"

definition readable :: "int \<Rightarrow> Board \<Rightarrow> Move \<Rightarrow> bool" where
  "readable n board m =
     (inRange n (from_pos m) \<and>
      (case captures m of None \<Rightarrow> True | Some cs \<Rightarrow> set cs \<subseteq> occupied board))"

subsection \<open>The three filters, in the words of the specification\<close>

text \<open>A move originates from a king when its source cell holds a king; a captured cell
  counts as a king when it holds one.\<close>

definition kingCell :: "Board \<Rightarrow> Pos \<Rightarrow> bool" where
  "kingCell board pos =
     (case cell board (fst pos) (snd pos) of Inr (Some p) \<Rightarrow> type p = KING | _ \<Rightarrow> False)"

definition fromKing :: "Board \<Rightarrow> Move \<Rightarrow> bool" where
  "fromKing board m = kingCell board (from_pos m)"

definition kingsCaptured :: "Board \<Rightarrow> Move \<Rightarrow> nat" where
  "kingsCaptured board m =
     (case captures m of None \<Rightarrow> 0 | Some cs \<Rightarrow> length (filter (kingCell board) cs))"

text \<open>King priority: if some chain originates from a king, the chains that originate from
  non-kings are discarded.\<close>

definition specKingPriority :: "VariantRules \<Rightarrow> Board \<Rightarrow> Move list \<Rightarrow> Move list" where
  "specKingPriority rules board ms =
     (if kingCapturePriority rules \<and> list_ex (fromKing board) ms
      then filter (fromKing board) ms else ms)"

text \<open>Majority: only the chains tied for the maximum capture count are kept.\<close>

definition specMajority :: "VariantRules \<Rightarrow> Move list \<Rightarrow> Move list" where
  "specMajority rules ms =
     (if majorityCaptureRequired rules
      then filter (\<lambda>m. list_all (\<lambda>m'. capLen m' \<le> capLen m) ms) ms else ms)"

text \<open>Quality: only the chains tied for the maximum number of captured kings are kept.\<close>

definition specQuality :: "VariantRules \<Rightarrow> Board \<Rightarrow> Move list \<Rightarrow> Move list" where
  "specQuality rules board ms =
     (if qualityCaptureRequired rules
      then filter (\<lambda>m. list_all (\<lambda>m'. kingsCaptured board m' \<le> kingsCaptured board m) ms) ms
      else ms)"

text \<open>A RED man on \<open>(5, 2)\<close> that can capture \<open>(4, 3)\<close> and then \<open>(2, 3)\<close> or \<open>(2, 5)\<close>, and a
  RED man on \<open>(7, 0)\<close> that can only step.\<close>

definition jumpBoard :: Board where
  "jumpBoard = place (emptyBoard 8)
     [(RED, PAWN, 5, 2), (RED, PAWN, 7, 0), (WHITE, PAWN, 4, 3), (WHITE, PAWN, 2, 3),
      (WHITE, PAWN, 2, 5)]"

text \<open>An Italian position: a RED king on \<open>(5, 2)\<close> and a RED man on \<open>(5, 6)\<close> can each
  capture two WHITE men, and a RED man on \<open>(3, 0)\<close> can capture one.\<close>

definition italianBoard :: Board where
  "italianBoard = place (emptyBoard 8)
     [(RED, KING, 5, 2), (RED, PAWN, 5, 6), (RED, PAWN, 3, 0), (WHITE, PAWN, 4, 3),
      (WHITE, PAWN, 4, 5), (WHITE, PAWN, 2, 5), (WHITE, PAWN, 2, 1)]"

text \<open>A Turkish position: a RED king on \<open>(3, 3)\<close>, and a WHITE man on \<open>(5, 3)\<close> behind it
  with empty cells on both sides.\<close>

definition turkishBoard :: Board where
  "turkishBoard = place (emptyBoard 8) [(RED, KING, 3, 3), (WHITE, PAWN, 5, 3)]"

text \<open>A position with a RED man on \<open>(5, 0)\<close> and a WHITE man on \<open>(2, 7)\<close>, each on an edge
  with a single move, RED to move, at difficulty level 1.\<close>

definition twoMenBoard :: Board where
  "twoMenBoard = place (emptyBoard 8) [(RED, PAWN, 5, 0), (WHITE, PAWN, 2, 7)]"

definition twoMenState :: GameState where
  "twoMenState = \<lparr> gBoard = twoMenBoard, gTurn = RED, gWinner = None, gHistory = [],
                   gAiLevel = 1, gVariant = ENGLISH, gMode = PLAY \<rparr>"

text \<open>The only move of RED there, the board after it (the man keeps its \<open>id\<close> and stands
  in row 4), the only reply of WHITE, and the board after the reply.\<close>

definition redStep :: Move where
  "redStep = \<lparr> from_pos = (5, 0), to_pos = (4, 1), captures = None \<rparr>"

definition movedRed :: "Cell list" where
  "movedRed = (replicate 8 Null)
     [1 := Occ \<lparr> pid = ''r-5-0'', player = RED, type = PAWN, position = (4, 1) \<rparr>]"

definition afterRed :: Board where
  "afterRed = (place (emptyBoard 8) [(WHITE, PAWN, 2, 7)])[4 := movedRed]"

definition whiteStep :: Move where
  "whiteStep = \<lparr> from_pos = (2, 7), to_pos = (3, 6), captures = None \<rparr>"

definition movedWhite :: "Cell list" where
  "movedWhite = (replicate 8 Null)
     [6 := Occ \<lparr> pid = ''w-2-7'', player = WHITE, type = PAWN, position = (3, 6) \<rparr>]"

definition afterWhite :: Board where
  "afterWhite = (emptyBoard 8)[4 := movedRed, 3 := movedWhite]"

subsection \<open>Tables without an exact entry\<close>

definition noExact :: "TT \<Rightarrow> bool" where
  "noExact tt = list_all (\<lambda>ke. entryFlag (snd ke) \<noteq> EXACT) tt"

section \<open>Properties\<close>

subsection \<open>The order on numbers\<close>

lemma NegInf_least: "NegInf \<le> (x :: number)"
  by (simp add: less_eq_number_def)

lemma PosInf_greatest: "(x :: number) \<le> PosInf"
  by (cases x) (simp_all add: less_eq_number_def)

lemma Fin_le_iff: "(Fin a \<le> Fin b) = (a \<le> b)"
  by (simp add: less_eq_number_def)

subsection \<open>Search depth\<close>

text \<open>Claim C8: the mapping from difficulty level to search depth that \<open>getBestMove\<close>
  uses never decreases when the (integer) level increases, and every depth it yields lies
  between 2 and 16 inclusive.\<close>

theorem depthOfLevel_mono_bounded:
  "l1 \<le> l2 \<Longrightarrow>
     depthOfLevel l1 \<le> depthOfLevel l2 \<and> 2 \<le> depthOfLevel l1 \<and> depthOfLevel l1 \<le> 16"
  unfolding depthOfLevel_def by (simp split: if_splits)

theorem depthOfLevel_mono_bounded_witness:
  "(7::int) \<le> 15 \<and> depthOfLevel 7 = 6 \<and> depthOfLevel 15 = 11 \<and>
   depthOfLevel 7 \<le> depthOfLevel 15 \<and> 2 \<le> depthOfLevel 7 \<and> depthOfLevel 7 \<le> 16"
  using depthOfLevel_mono_bounded [of 7 15] by (simp add: depthOfLevel_def)

subsection \<open>Capture chains\<close>

lemma mapE_Inr_mem:
  "mapE f xs = Inr yss \<Longrightarrow> ys \<in> set yss \<Longrightarrow> \<exists>x \<in> set xs. f x = Inr ys"
  by (induction xs arbitrary: yss) (auto split: sum.splits)

lemma concatE_mem:
  "concatE f xs = Inr ys \<Longrightarrow> m \<in> set ys \<Longrightarrow> \<exists>x \<in> set xs. \<exists>zs. f x = Inr zs \<and> m \<in> set zs"
proof -
  assume c: "concatE f xs = Inr ys" and m: "m \<in> set ys"
  from c obtain yss where yss: "mapE f xs = Inr yss" and ys: "ys = concat yss"
    by (auto simp: concatE_def split: sum.splits)
  from m ys obtain zs where zs: "zs \<in> set yss" and mz: "m \<in> set zs" by auto
  from mapE_Inr_mem [OF yss zs] mz show ?thesis by blast
qed

lemma chainLink_leafI:
  "cell board (fst x) (snd x) = Inr (Some mp) \<Longrightarrow> x \<notin> set visited \<Longrightarrow>
   chainLink board piece rules visited
     \<lparr> from_pos = position piece, to_pos = dest, captures = Some (visited @ [x]) \<rparr>"
  unfolding chainLink_def by blast

lemma chainLink_deepI:
  "cell board (fst x) (snd x) = Inr (Some mp) \<Longrightarrow> x \<notin> set visited \<Longrightarrow>
   findJumps board piece rules pos' ty' (visited @ [x]) = Inr ms' \<Longrightarrow> m \<in> set ms' \<Longrightarrow>
   chainLink board piece rules visited m"
  unfolding chainLink_def by blast

lemmas chainLink_intros =
  chainLink_leafI chainLink_deepI
  chainLink_leafI [of _ "(r, c)", simplified] chainLink_deepI [of _ "(r, c)", simplified]
  for r c

lemma scanRay_found:
  "scanRay board bsize cur dir ds = Inr (Some found) \<Longrightarrow>
   cell board (fst (fst found)) (snd (fst found)) = Inr (Some (snd found))"
  by (cases found, cases "fst found") (auto dest: scanRay_Some)

lemma findJumps_mem:
  assumes "findJumps board piece rules cur ty visited = Inr ms" and "m \<in> set ms"
  shows "chainLink board piece rules visited m"
  using assms
  apply (subst (asm) findJumps.simps)
  apply (simp only: Let_def)
  apply (drule (1) concatE_mem)
  apply (elim bexE exE conjE)
  apply (cases "ty = PAWN")
   apply (simp split: if_splits sum.splits option.splits)
  apply (auto intro: chainLink_intros)[8]
  apply (cases "kingLongRange rules")
   prefer 2
   apply (simp split: if_splits sum.splits option.splits)
   apply (auto intro: chainLink_intros)[2]
  apply (cases "kingStopsAfterCapture rules")
   apply (simp split: if_splits sum.splits option.splits)
   apply (auto intro: chainLink_intros dest!: scanRay_found)[2]
  apply (simp split: if_splits sum.splits option.splits)
  apply (drule (1) concatE_mem)
  apply (elim bexE exE conjE)
  apply (drule scanRay_found)
  apply (simp split: sum.splits if_splits)
   apply (auto intro: chainLink_intros)
  done

lemma findJumps_captures:
  "findJumps board piece rules cur ty visited = Inr ms \<Longrightarrow> m \<in> set ms \<Longrightarrow>
   \<exists>ws. ws \<noteq> [] \<and> captures m = Some (visited @ ws) \<and> (distinct visited \<longrightarrow> distinct (visited @ ws))
      \<and> from_pos m = position piece"
proof (induction "card (occupied board - set visited)" arbitrary: cur ty visited ms rule: less_induct)
  case less
  from findJumps_mem [OF less.prems]
  obtain x mp where x: "x \<notin> set visited" and occ: "cell board (fst x) (snd x) = Inr (Some mp)"
    and alt: "(\<exists>dest. m = \<lparr> from_pos = position piece, to_pos = dest,
                         captures = Some (visited @ [x]) \<rparr>)
            \<or> (\<exists>pos' ty' ms'. findJumps board piece rules pos' ty' (visited @ [x]) = Inr ms'
                  \<and> m \<in> set ms')"
    unfolding chainLink_def by blast
  from alt show ?case
  proof
    assume "\<exists>dest. m = \<lparr> from_pos = position piece, to_pos = dest,
                         captures = Some (visited @ [x]) \<rparr>"
    then obtain dest where m: "m = \<lparr> from_pos = position piece, to_pos = dest,
                         captures = Some (visited @ [x]) \<rparr>" ..
    show ?thesis
      by (rule exI [of _ "[x]"]) (simp add: m x)
  next
    assume "\<exists>pos' ty' ms'. findJumps board piece rules pos' ty' (visited @ [x]) = Inr ms'
                  \<and> m \<in> set ms'"
    then obtain pos' ty' ms' where
      rec: "findJumps board piece rules pos' ty' (visited @ [x]) = Inr ms'" and mem: "m \<in> set ms'"
      by blast
    have "card (occupied board - set (visited @ [x])) < card (occupied board - set visited)"
      using occupied_less [of board "fst x" "snd x" mp "set visited"] occ x by simp
    from less.hyps [OF this rec mem]
    obtain ws where ws: "ws \<noteq> []" "captures m = Some ((visited @ [x]) @ ws)"
      "distinct (visited @ [x]) \<longrightarrow> distinct ((visited @ [x]) @ ws)" "from_pos m = position piece"
      by blast
    show ?thesis
      by (rule exI [of _ "x # ws"]) (use ws x in auto)
  qed
qed

lemma slide_captures:
  "slide board bsize piece dir ds = Inr ms \<Longrightarrow> m \<in> set ms \<Longrightarrow> captures m = None"
  by (induction ds arbitrary: ms) (auto simp: Let_def split: if_splits sum.splits option.splits)

lemma stepsDir_captures:
  "stepsDir board piece rules dir = Inr ms \<Longrightarrow> m \<in> set ms \<Longrightarrow> captures m = None"
  by (auto simp: stepsDir_def Let_def split: if_splits sum.splits option.splits
      dest: slide_captures)

lemma getPieceMoves_kinds:
  assumes "getPieceMoves board piece rules = Inr (jumps, steps)"
  shows "(\<forall>m \<in> set jumps. isChain m) \<and> (\<forall>m \<in> set steps. isStep m)"
proof -
  from assms have j: "findJumps board piece rules (position piece) (type piece) [] = Inr jumps"
    and s: "concatE (stepsDir board piece rules) (dirsOf rules piece) = Inr steps"
    by (auto simp: getPieceMoves_def split: sum.splits)
  have "isChain m" if "m \<in> set jumps" for m
    using findJumps_captures [OF j that] by (auto simp: isChain_def)
  moreover have "isStep m" if "m \<in> set steps" for m
    using concatE_mem [OF s that] by (auto simp: isStep_def dest: stepsDir_captures)
  ultimately show ?thesis by blast
qed

lemma collectStep_kinds:
  assumes "collectStep board pl rules rc acc = Inr acc'"
    and "(\<forall>m \<in> set (fst acc). isChain m) \<and> (\<forall>m \<in> set (snd acc). isStep m)"
  shows "(\<forall>m \<in> set (fst acc'). isChain m) \<and> (\<forall>m \<in> set (snd acc'). isStep m)"
  using assms
  by (auto simp: collectStep_def split: sum.splits option.splits if_splits
      dest!: getPieceMoves_kinds)

lemma foldE_invariant:
  assumes "foldE f xs s = Inr s'" and "I s"
    and "\<And>x t t'. f x t = Inr t' \<Longrightarrow> I t \<Longrightarrow> I t'"
  shows "I s'"
  using assms by (induction xs arbitrary: s) (auto split: sum.splits)

lemma collectMoves_kinds:
  assumes "collectMoves board pl rules = Inr (jumpMoves, stepMoves)"
  shows "(\<forall>m \<in> set jumpMoves. isChain m) \<and> (\<forall>m \<in> set stepMoves. isStep m)"
proof -
  let ?I = "\<lambda>acc. (\<forall>m \<in> set (fst acc). isChain m) \<and> (\<forall>m \<in> set (snd acc). isStep m)"
  have "?I (jumpMoves, stepMoves)"
  proof (rule foldE_invariant [where I = ?I])
    show "foldE (collectStep board pl rules) (cells (boardSize rules)) ([], []) = Inr (jumpMoves, stepMoves)"
      using assms by (simp add: collectMoves_def)
    show "?I ([], [])" by simp
    show "?I t'" if "collectStep board pl rules x t = Inr t'" "?I t" for x t t'
      using collectStep_kinds [OF that] .
  qed
  then show ?thesis by simp
qed

lemma filterE_eq:
  "filterE f xs = Inr ys \<Longrightarrow> ys = filter (\<lambda>x. f x = Inr True) xs"
  by (induction xs arbitrary: ys) (auto split: sum.splits)

lemma filterE_subset: "filterE f xs = Inr ys \<Longrightarrow> set ys \<subseteq> set xs"
  by (auto dest: filterE_eq)

lemma kingPriorityFilter_subset:
  "kingPriorityFilter rules board ms = Inr ks \<Longrightarrow> set ks \<subseteq> set ms"
  by (auto simp: kingPriorityFilter_def split: if_splits sum.splits dest!: filterE_subset)

lemma majorityFilter_subset: "set (majorityFilter rules ms) \<subseteq> set ms"
  by (auto simp: majorityFilter_def Let_def)

lemma qualityFilter_subset:
  "qualityFilter rules board ms = Inr qs \<Longrightarrow> set qs \<subseteq> set ms"
  by (auto simp: qualityFilter_def Let_def split: if_splits sum.splits dest!: filterE_subset)

lemma getValidMoves_cases:
  assumes "collectMoves board pl (getVariantRules variant) = Inr (jumpMoves, stepMoves)"
    and "getValidMoves board pl variant = Inr moves"
  shows "if jumpMoves = [] then moves = stepMoves
         else (\<exists>ks. kingPriorityFilter (getVariantRules variant) board jumpMoves = Inr ks \<and>
                 qualityFilter (getVariantRules variant) board
                   (majorityFilter (getVariantRules variant) ks) = Inr moves)"
  using assms by (auto simp: getValidMoves_def Let_def split: sum.splits if_splits)

lemma getValidMoves_subset:
  assumes c: "collectMoves board pl (getVariantRules variant) = Inr (jumpMoves, stepMoves)"
    and g: "getValidMoves board pl variant = Inr moves"
    and j: "jumpMoves \<noteq> []"
  shows "set moves \<subseteq> set jumpMoves"
proof -
  from getValidMoves_cases [OF c g] j obtain ks where
    ks: "kingPriorityFilter (getVariantRules variant) board jumpMoves = Inr ks"
    and q: "qualityFilter (getVariantRules variant) board
              (majorityFilter (getVariantRules variant) ks) = Inr moves"
    by auto
  from qualityFilter_subset [OF q] majorityFilter_subset kingPriorityFilter_subset [OF ks]
  show ?thesis by blast
qed

lemma isChain_capLen: "isChain m \<Longrightarrow> capLen m > 0"
  by (auto simp: isChain_def capLen_def split: option.splits)

lemma isChain_not_isStep: "isChain m \<Longrightarrow> \<not> isStep m"
  by (auto simp: isChain_def isStep_def split: option.splits)

subsection \<open>The size of the transposition table\<close>

lemma ttSet_size: "ttSize (ttSet tt key e) \<le> Suc (ttSize tt)"
  unfolding ttSize_def by (induction tt key e rule: ttSet.induct) auto

lemma alphaBeta_size:
  shows "ttSize (snd (alphaBeta tt board depth alpha beta isMax pl variant))
           \<le> max (ttSize tt) storeThreshold"
    and "ttSize (snd (alphaBetaLoop tt board moves d best alpha beta isMax pl variant))
           \<le> max (ttSize tt) storeThreshold"
proof (induction tt board depth alpha beta isMax pl variant
         and tt board moves d best alpha beta isMax pl variant
       rule: alphaBeta_alphaBetaLoop.induct)
  case (1 tt board depth alpha beta isMax pl variant)
  show ?case
  proof (cases "probe (ttGet tt (ttKey board isMax pl)) depth alpha beta")
    case (Inl s)
    then show ?thesis by (simp add: alphaBeta.simps)
  next
    case (Inr window)
    show ?thesis
    proof (cases "getValidMoves board pl variant")
      case (Inl e)
      with Inr show ?thesis by (simp add: alphaBeta.simps)
    next
      case mv: (Inr moves)
      show ?thesis
      proof (cases "depth = 0 \<or> length moves = 0")
        case True
        with Inr mv show ?thesis by (simp add: alphaBeta.simps)
      next
        case False
        let ?loop = "alphaBetaLoop tt board (ordered moves) (depth - 1)
                       (if isMax then NegInf else PosInf) (fst window) (snd window) isMax pl variant"
        have ih: "ttSize (snd ?loop) \<le> max (ttSize tt) storeThreshold"
          using "1.IH" [OF refl refl Inr refl refl mv False refl] .
        obtain res tt' where loop: "?loop = (res, tt')" by (cases ?loop)
        with ih have sz: "ttSize tt' \<le> max (ttSize tt) storeThreshold" by simp
        show ?thesis
        proof (cases res)
          case (Inl e)
          with Inr mv False loop sz show ?thesis
            by (simp add: alphaBeta.simps)
        next
          case r: (Inr triple)
          obtain b a' b' where t: "triple = (b, a', b')" by (cases triple)
          have "ttSize (ttSet tt' key e) \<le> max (ttSize tt) storeThreshold"
            if "ttSize tt' < storeThreshold" for key e
            using ttSet_size [of tt' key e] that by simp
          with Inr mv False loop sz r t show ?thesis
            by (simp add: alphaBeta.simps)
        qed
      qed
    qed
  qed
next
  case (2 tt board d best alpha beta isMax pl variant)
  show ?case by simp
next
  case (3 tt board move rest d best alpha beta isMax pl variant)
  show ?case
  proof (cases "applyMove board move variant")
    case (Inl e)
    then show ?thesis by simp
  next
    case (Inr newBoard)
    let ?ab = "alphaBeta tt newBoard d alpha beta (\<not> isMax) (if pl = RED then WHITE else RED) variant"
    obtain x y where ab: "?ab = (x, y)" by (cases ?ab)
    from "3.IH"(1) [OF Inr] ab have szy: "ttSize y \<le> max (ttSize tt) storeThreshold" by simp
    show ?thesis
    proof (cases x)
      case (Inl e)
      with Inr ab szy show ?thesis by simp
    next
      case sc: (Inr score)
      let ?best = "if isMax then max best score else min best score"
      let ?alpha = "if isMax then max alpha ?best else alpha"
      let ?beta = "if isMax then beta else min beta ?best"
      show ?thesis
      proof (cases "?beta \<le> ?alpha")
        case True
        with Inr ab sc szy show ?thesis by (simp add: Let_def)
      next
        case False
        from "3.IH"(2) [OF Inr ab [symmetric] sc refl refl refl False]
        have ih: "ttSize (snd (alphaBetaLoop y board rest d ?best ?alpha ?beta isMax pl variant))
                \<le> max (ttSize y) storeThreshold" .
        have eq: "alphaBetaLoop tt board (move # rest) d best alpha beta isMax pl variant
                  = alphaBetaLoop y board rest d ?best ?alpha ?beta isMax pl variant"
          using Inr ab sc False by (simp add: Let_def)
        from ih szy show ?thesis unfolding eq by linarith
      qed
    qed
  qed
qed

lemma bestMoveLoop_size:
  "ttSize (snd (bestMoveLoop tt gs moves d bestMove bestScore)) \<le> max (ttSize tt) storeThreshold"
proof (induction moves arbitrary: tt bestMove bestScore)
  case Nil
  show ?case by simp
next
  case (Cons move rest)
  show ?case
  proof (cases "applyMove (gBoard gs) move (gVariant gs)")
    case (Inl e)
    then show ?thesis by simp
  next
    case (Inr newBoard)
    let ?ab = "alphaBeta tt newBoard d NegInf PosInf (gTurn gs \<noteq> RED)
                 (if gTurn gs = RED then WHITE else RED) (gVariant gs)"
    obtain x y where ab: "?ab = (x, y)" by (cases ?ab)
    from alphaBeta_size(1) [of tt newBoard d NegInf PosInf "gTurn gs \<noteq> RED"
        "if gTurn gs = RED then WHITE else RED" "gVariant gs"] ab
    have szy: "ttSize y \<le> max (ttSize tt) storeThreshold" by simp
    show ?thesis
    proof (cases x)
      case (Inl e)
      with Inr ab szy show ?thesis by simp
    next
      case sc: (Inr score)
      have "ttSize (snd (bestMoveLoop y gs rest d bm bs)) \<le> max (ttSize tt) storeThreshold"
        for bm bs
        using Cons.IH [of y bm bs] szy by linarith
      with Inr ab sc show ?thesis by simp
    qed
  qed
qed

subsection \<open>The tags that alphaBeta stores\<close>

text \<open>After the loop of \<open>alphaBeta\<close>, \<open>best\<close> is at most \<open>alpha\<close> at a maximising node and
  at least \<open>beta\<close> at a minimising node, because the loop overwrites \<open>alpha\<close> and \<open>beta\<close>
  with \<open>best\<close>. The tag computed from them is therefore never \<open>EXACT\<close>: a table without
  exact entries stays so.\<close>

lemma noExact_ttSet:
  "noExact tt \<Longrightarrow> entryFlag e \<noteq> EXACT \<Longrightarrow> noExact (ttSet tt key e)"
  unfolding noExact_def by (induction tt key e rule: ttSet.induct) auto

lemma flagOf_max: "best \<le> alpha \<Longrightarrow> flagOf best alpha beta = UPPER"
  by (simp add: flagOf_def)

lemma flagOf_min: "beta \<le> best \<Longrightarrow> flagOf best alpha beta \<noteq> EXACT"
  by (simp add: flagOf_def)

lemma alphaBeta_noExact:
  shows "noExact tt \<Longrightarrow> noExact (snd (alphaBeta tt board depth alpha beta isMax pl variant))"
    and "noExact tt \<Longrightarrow> (if isMax then best \<le> alpha else beta \<le> best) \<Longrightarrow>
         noExact (snd (alphaBetaLoop tt board moves d best alpha beta isMax pl variant)) \<and>
         (\<forall>b a' b'. fst (alphaBetaLoop tt board moves d best alpha beta isMax pl variant)
                       = Inr (b, a', b') \<longrightarrow> (if isMax then b \<le> a' else b' \<le> b))"
proof (induction tt board depth alpha beta isMax pl variant
         and tt board moves d best alpha beta isMax pl variant
       rule: alphaBeta_alphaBetaLoop.induct)
  case (1 tt board depth alpha beta isMax pl variant)
  note ne = "1.prems"
  show ?case
  proof (cases "probe (ttGet tt (ttKey board isMax pl)) depth alpha beta")
    case (Inl s)
    with ne show ?thesis by (simp add: alphaBeta.simps)
  next
    case (Inr window)
    show ?thesis
    proof (cases "getValidMoves board pl variant")
      case (Inl e)
      with Inr ne show ?thesis by (simp add: alphaBeta.simps)
    next
      case mv: (Inr moves)
      show ?thesis
      proof (cases "depth = 0 \<or> length moves = 0")
        case True
        with Inr mv ne show ?thesis by (simp add: alphaBeta.simps)
      next
        case False
        let ?best0 = "if isMax then NegInf else PosInf"
        let ?loop = "alphaBetaLoop tt board (ordered moves) (depth - 1)
                       ?best0 (fst window) (snd window) isMax pl variant"
        have start: "if isMax then ?best0 \<le> fst window else snd window \<le> ?best0"
          by (simp add: NegInf_least PosInf_greatest)
        note ih = "1.IH" [OF refl refl Inr refl refl mv False refl ne start]
        obtain res tt' where loop: "?loop = (res, tt')" by (cases ?loop)
        with ih have ne': "noExact tt'" by simp
        show ?thesis
        proof (cases res)
          case (Inl e)
          with Inr mv False loop ne' show ?thesis
            by (simp add: alphaBeta.simps)
        next
          case r: (Inr triple)
          obtain b a' b' where t: "triple = (b, a', b')" by (cases triple)
          from ih loop r t have inv: "if isMax then b \<le> a' else b' \<le> b" by simp
          have "flagOf b a' b' \<noteq> EXACT"
            using inv flagOf_max [of b a' b'] flagOf_min [of b' b a'] by (cases isMax) auto
          then have "noExact (ttSet tt' (ttKey board isMax pl)
                      \<lparr> entryDepth = depth, entryScore = b, entryFlag = flagOf b a' b' \<rparr>)"
            using ne' by (intro noExact_ttSet) simp_all
          with Inr mv False loop ne' r t show ?thesis
            by (simp add: alphaBeta.simps)
        qed
      qed
    qed
  qed
next
  case (2 tt board d best alpha beta isMax pl variant)
  then show ?case by simp
next
  case (3 tt board move rest d best alpha beta isMax pl variant)
  note ne = "3.prems"(1) and inv = "3.prems"(2)
  show ?case
  proof (cases "applyMove board move variant")
    case (Inl e)
    with ne show ?thesis by simp
  next
    case (Inr newBoard)
    let ?ab = "alphaBeta tt newBoard d alpha beta (\<not> isMax) (if pl = RED then WHITE else RED) variant"
    obtain x y where ab: "?ab = (x, y)" by (cases ?ab)
    from "3.IH"(1) [OF Inr ne] ab have ney: "noExact y" by simp
    show ?thesis
    proof (cases x)
      case (Inl e)
      with Inr ab ney show ?thesis by simp
    next
      case sc: (Inr score)
      let ?best = "if isMax then max best score else min best score"
      let ?alpha = "if isMax then max alpha ?best else alpha"
      let ?beta = "if isMax then beta else min beta ?best"
      have inv': "if isMax then ?best \<le> ?alpha else ?beta \<le> ?best"
        by (simp add: min.coboundedI2)
      show ?thesis
      proof (cases "?beta \<le> ?alpha")
        case True
        have eq: "alphaBetaLoop tt board (move # rest) d best alpha beta isMax pl variant
                  = (Inr (?best, ?alpha, ?beta), y)"
          using Inr ab sc True by (simp add: Let_def)
        from ney inv' show ?thesis unfolding eq by simp
      next
        case False
        have eq: "alphaBetaLoop tt board (move # rest) d best alpha beta isMax pl variant
                  = alphaBetaLoop y board rest d ?best ?alpha ?beta isMax pl variant"
          using Inr ab sc False by (simp add: Let_def)
        from "3.IH"(2) [OF Inr ab [symmetric] sc refl refl refl False ney inv']
        show ?thesis unfolding eq .
      qed
    qed
  qed
qed

subsection \<open>A search evaluated step by step\<close>

lemma twoMen_RED: "getValidMoves twoMenBoard RED ENGLISH = Inr [redStep]"
  by code_simp

lemma twoMen_redStep: "applyMove twoMenBoard redStep ENGLISH = Inr afterRed"
  by code_simp

lemma afterRed_WHITE: "getValidMoves afterRed WHITE ENGLISH = Inr [whiteStep]"
  by code_simp

lemma afterRed_whiteStep: "applyMove afterRed whiteStep ENGLISH = Inr afterWhite"
  by code_simp

lemma afterWhite_RED:
  "getValidMoves afterWhite RED ENGLISH =
     Inr [\<lparr>from_pos = (4, 1), to_pos = (3, 2), captures = None\<rparr>,
          \<lparr>from_pos = (4, 1), to_pos = (3, 0), captures = None\<rparr>]"
  by code_simp

lemma afterWhite_eval: "evaluateBoard afterWhite ENGLISH = Inr 0"
  by code_simp

lemma afterWhite_quiesce: "quiesce afterWhite NegInf PosInf True RED ENGLISH 0 = Inr (Fin 0)"
  by (simp add: quiesce.simps afterWhite_RED afterWhite_eval less_eq_number_def
      less_number_def capLen_def)

lemma afterWhite_alphaBeta:
  "alphaBeta [] afterWhite 0 NegInf PosInf True RED ENGLISH = (Inr (Fin 0), [])"
  by (simp add: alphaBeta.simps ttGet_def probe_def afterWhite_RED afterWhite_quiesce)

lemma afterRed_alphaBeta:
  "alphaBeta [] afterRed 1 NegInf PosInf False WHITE ENGLISH =
     (Inr (Fin 0),
      [(ttKey afterRed False WHITE,
        \<lparr> entryDepth = 1, entryScore = Fin 0, entryFlag = LOWER \<rparr>)])"
  by (simp add: alphaBeta.simps [of _ afterRed] ttGet_def probe_def afterRed_WHITE
      afterRed_whiteStep afterWhite_alphaBeta ordered_def ttSize_def storeThreshold_def
      flagOf_def less_eq_number_def less_number_def min_def max_def Let_def)

lemma twoMen_getBestMove:
  "getBestMove [] twoMenState =
     (Inr (Some redStep),
      [(ttKey afterRed False WHITE,
        \<lparr> entryDepth = 1, entryScore = Fin 0, entryFlag = LOWER \<rparr>)])"
  by (simp add: getBestMove_def twoMenState_def ttSize_def clearThreshold_def depthOfLevel_def
      twoMen_RED twoMen_redStep afterRed_alphaBeta [unfolded One_nat_def]
      less_eq_number_def less_number_def)

subsection \<open>The move generator returns on well-formed boards\<close>

lemma cell_row_ok:
  "0 \<le> r \<Longrightarrow> r < n \<Longrightarrow> n \<le> int (length board) \<Longrightarrow> \<exists>po. cell board r c = Inr po"
  by (simp add: cell_def Let_def)

lemma mapE_total:
  "(\<And>x. x \<in> set xs \<Longrightarrow> \<exists>y. f x = Inr y) \<Longrightarrow> \<exists>ys. mapE f xs = Inr ys"
proof (induction xs)
  case Nil
  show ?case by simp
next
  case (Cons a xs)
  from Cons.prems [of a] obtain y where y: "f a = Inr y" by auto
  from Cons.IH Cons.prems obtain ys where ys: "mapE f xs = Inr ys" by auto
  from y ys show ?case by simp
qed

lemma concatE_total:
  "(\<And>x. x \<in> set xs \<Longrightarrow> \<exists>y. f x = Inr y) \<Longrightarrow> \<exists>ys. concatE f xs = Inr ys"
  using mapE_total [of xs f] by (auto simp: concatE_def)

lemma filterE_total:
  "(\<And>x. x \<in> set xs \<Longrightarrow> \<exists>b. f x = Inr b) \<Longrightarrow> \<exists>ys. filterE f xs = Inr ys"
proof (induction xs)
  case Nil
  show ?case by simp
next
  case (Cons a xs)
  from Cons.prems [of a] obtain b where b: "f a = Inr b" by auto
  from Cons.IH Cons.prems obtain ys where ys: "filterE f xs = Inr ys" by auto
  from b ys show ?case by simp
qed

lemma scanRay_total:
  "n \<le> int (length board) \<Longrightarrow> \<exists>res. scanRay board n cur dir ds = Inr res"
proof (induction ds)
  case Nil
  show ?case by simp
next
  case (Cons d ds)
  let ?mr = "fst cur + fst dir * d" and ?mc = "snd cur + snd dir * d"
  show ?case
  proof (cases "?mr < 0 \<or> ?mr \<ge> n \<or> ?mc < 0 \<or> ?mc \<ge> n")
    case True
    then show ?thesis by (simp add: Let_def)
  next
    case False
    then obtain po where po: "cell board ?mr ?mc = Inr po"
      using cell_row_ok [of ?mr n board ?mc] Cons.prems by auto
    with False Cons show ?thesis
      by (cases po) (auto simp: Let_def)
  qed
qed

lemma landings_total:
  "n \<le> int (length board) \<Longrightarrow>
   \<exists>ls. landings board n m dir ds = Inr ls \<and> (\<forall>l \<in> set ls. inRange n l)"
proof (induction ds)
  case Nil
  show ?case by simp
next
  case (Cons d ds)
  let ?lr = "fst m + fst dir * d" and ?lc = "snd m + snd dir * d"
  show ?case
  proof (cases "?lr < 0 \<or> ?lr \<ge> n \<or> ?lc < 0 \<or> ?lc \<ge> n")
    case True
    then show ?thesis by (simp add: Let_def)
  next
    case False
    then obtain po where po: "cell board ?lr ?lc = Inr po"
      using cell_row_ok [of ?lr n board ?lc] Cons.prems by auto
    from Cons obtain ls where ls: "landings board n m dir ds = Inr ls" "\<forall>l \<in> set ls. inRange n l"
      by auto
    with False po show ?thesis
      by (cases po) (auto simp: Let_def inRange_def)
  qed
qed

lemma slide_total:
  "n \<le> int (length board) \<Longrightarrow> \<exists>ms. slide board n piece dir ds = Inr ms"
proof (induction ds)
  case Nil
  show ?case by simp
next
  case (Cons d ds)
  let ?tr = "fst (position piece) + fst dir * d" and ?tc = "snd (position piece) + snd dir * d"
  show ?case
  proof (cases "?tr \<ge> 0 \<and> ?tr < n \<and> ?tc \<ge> 0 \<and> ?tc < n")
    case False
    then show ?thesis by (auto simp: Let_def)
  next
    case True
    then obtain po where po: "cell board ?tr ?tc = Inr po"
      using cell_row_ok [of ?tr n board ?tc] Cons.prems by auto
    from Cons obtain ms where "slide board n piece dir ds = Inr ms" by auto
    with True po show ?thesis
      by (cases po) (auto simp: Let_def)
  qed
qed

lemma stepsDir_total:
  assumes "boardSize rules \<le> int (length board)"
  shows "\<exists>ms. stepsDir board piece rules dir = Inr ms"
proof -
  let ?n = "boardSize rules"
  let ?tr = "fst (position piece) + fst dir" and ?tc = "snd (position piece) + snd dir"
  have one: "\<exists>po. cell board ?tr ?tc = Inr po" if "?tr \<ge> 0 \<and> ?tr < ?n"
    using that cell_row_ok [of ?tr ?n board ?tc] assms by auto
  from slide_total [OF assms] obtain ms where
    "slide board ?n piece dir [1..?n - 1] = Inr ms" by blast
  with one show ?thesis
    by (auto simp: stepsDir_def Let_def split: sum.splits option.splits)
qed

lemma not_Inl_total: "(\<And>e. x \<noteq> Inl e) \<Longrightarrow> \<exists>y. x = Inr y"
  by (cases x) auto

lemma dirsOf_unit: "dir \<in> set (dirsOf rules piece) \<Longrightarrow> - 1 \<le> fst dir \<and> fst dir \<le> 1"
  by (auto simp: dirsOf_def split: if_splits)

lemma cell_not_Inl:
  "0 \<le> r \<Longrightarrow> r < n \<Longrightarrow> n \<le> int (length board) \<Longrightarrow> cell board r c \<noteq> Inl e"
  by (simp add: cell_def Let_def)

lemma mapE_Inl:
  "mapE f xs = Inl e \<Longrightarrow> \<exists>x \<in> set xs. f x = Inl e"
  by (induction xs) (auto split: sum.splits)

lemma concatE_Inl:
  "concatE f xs = Inl e \<Longrightarrow> \<exists>x \<in> set xs. f x = Inl e"
  by (auto simp: concatE_def split: sum.splits dest: mapE_Inl)

lemma findJumps_total:
  assumes n: "boardSize rules \<le> int (length board)"
  shows "inRange (boardSize rules) cur \<Longrightarrow>
         \<exists>ms. findJumps board piece rules cur ty visited = Inr ms"
proof (induction "card (occupied board - set visited)" arbitrary: cur ty visited rule: less_induct)
  case less
  let ?n = "boardSize rules"
  have rec: "(findJumps board piece rules pos ty' (visited @ [x]) = Inl e) = False"
    if "x \<notin> set visited" "x \<in> occupied board" "0 \<le> fst pos" "fst pos < ?n"
       "0 \<le> snd pos" "snd pos < ?n"
    for x pos ty' e
  proof -
    from that(2) obtain mp where mp: "cell board (fst x) (snd x) = Inr (Some mp)"
      by (auto simp: occupied_def)
    have "card (occupied board - set (visited @ [x])) < card (occupied board - set visited)"
      using occupied_less [of board "fst x" "snd x" mp "set visited"] that(1) mp by simp
    from less.hyps [OF this, of pos ty'] that show ?thesis
      by (auto simp: inRange_def)
  qed
  have rd: "(cell board r c = Inl e) = False" if "0 \<le> r" "r < ?n" for r c e
    using cell_not_Inl [OF that n] by simp
  have scan: "(scanRay board ?n cur dir ds = Inl e) = False" for dir ds e
    using scanRay_total [OF n, of cur dir ds] by auto
  have land: "(landings board ?n m dir ds = Inl e) = False" for m dir ds e
    using landings_total [OF n, of m dir ds] by auto
  have landr: "0 \<le> fst l \<and> fst l < ?n \<and> 0 \<le> snd l \<and> snd l < ?n"
    if "landings board ?n m dir ds = Inr ls" "l \<in> set ls" for m dir ds ls l
    using landings_total [OF n, of m dir ds] that by (auto simp: inRange_def)
  from less.prems have cur: "0 \<le> fst cur" "fst cur < ?n" "0 \<le> snd cur" "snd cur < ?n"
    by (auto simp: inRange_def)
  show ?case
    apply (subst findJumps.simps)
    apply (simp only: Let_def)
    apply (rule concatE_total)
    apply (rule not_Inl_total)
    apply (rule notI)
    apply (frule dirsOf_unit)
    apply (insert cur)
    apply (cases "ty = PAWN")
     apply (simp split: if_splits sum.splits option.splits; simp add: rd rec occupied_def)
    apply (cases "kingLongRange rules")
     prefer 2
     apply (simp split: if_splits sum.splits option.splits; simp add: rd rec occupied_def)
    apply (cases "kingStopsAfterCapture rules")
     apply (simp split: if_splits sum.splits option.splits add: scan;
            (drule scanRay_found)?; simp add: rd rec occupied_def split_beta)
    apply (simp split: if_splits sum.splits option.splits add: scan land)
     apply (simp add: rd)
    apply (drule concatE_Inl)
    apply (elim bexE)
    apply (drule scanRay_found)
    apply (frule (1) landr)
    apply (simp split: sum.splits if_splits add: rec occupied_def split_beta)
    done
qed

lemma findJumps_occupied:
  "findJumps board piece rules cur ty visited = Inr ms \<Longrightarrow> m \<in> set ms \<Longrightarrow>
   set visited \<subseteq> occupied board \<Longrightarrow>
   \<exists>cs. captures m = Some cs \<and> set cs \<subseteq> occupied board"
proof (induction "card (occupied board - set visited)" arbitrary: cur ty visited ms rule: less_induct)
  case less
  from findJumps_mem [OF less.prems(1,2)]
  obtain x mp where x: "x \<notin> set visited" and occ: "cell board (fst x) (snd x) = Inr (Some mp)"
    and alt: "(\<exists>dest. m = \<lparr> from_pos = position piece, to_pos = dest,
                         captures = Some (visited @ [x]) \<rparr>)
            \<or> (\<exists>pos' ty' ms'. findJumps board piece rules pos' ty' (visited @ [x]) = Inr ms'
                  \<and> m \<in> set ms')"
    unfolding chainLink_def by blast
  from occ have xo: "x \<in> occupied board"
    by (cases x) (auto simp: occupied_def)
  with less.prems(3) have sub: "set (visited @ [x]) \<subseteq> occupied board" by simp
  from alt show ?case
  proof
    assume "\<exists>dest. m = \<lparr> from_pos = position piece, to_pos = dest,
                         captures = Some (visited @ [x]) \<rparr>"
    with sub show ?thesis by auto
  next
    assume "\<exists>pos' ty' ms'. findJumps board piece rules pos' ty' (visited @ [x]) = Inr ms'
                  \<and> m \<in> set ms'"
    then obtain pos' ty' ms' where
      rec: "findJumps board piece rules pos' ty' (visited @ [x]) = Inr ms'" and mem: "m \<in> set ms'"
      by blast
    have "card (occupied board - set (visited @ [x])) < card (occupied board - set visited)"
      using occupied_less [of board "fst x" "snd x" mp "set visited"] occ x by simp
    from less.hyps [OF this rec mem sub] show ?thesis .
  qed
qed

lemma getPieceMoves_total:
  assumes "boardSize rules \<le> int (length board)" and "inRange (boardSize rules) (position piece)"
  shows "\<exists>js. getPieceMoves board piece rules = Inr js"
proof -
  from findJumps_total [OF assms, of piece "type piece" "[]"] obtain jumps where
    j: "findJumps board piece rules (position piece) (type piece) [] = Inr jumps" by blast
  from concatE_total [of "dirsOf rules piece" "stepsDir board piece rules"]
    stepsDir_total [OF assms(1)]
  obtain steps where "concatE (stepsDir board piece rules) (dirsOf rules piece) = Inr steps"
    by blast
  with j show ?thesis by (simp add: getPieceMoves_def)
qed

lemma getPieceMoves_readable:
  assumes "getPieceMoves board piece rules = Inr (jumps, steps)"
    and "inRange n (position piece)" and "m \<in> set jumps"
  shows "readable n board m"
proof -
  from assms(1) have j: "findJumps board piece rules (position piece) (type piece) [] = Inr jumps"
    by (auto simp: getPieceMoves_def split: sum.splits)
  from findJumps_captures [OF j assms(3)] have "from_pos m = position piece" by auto
  moreover from findJumps_occupied [OF j assms(3)]
  have "\<exists>cs. captures m = Some cs \<and> set cs \<subseteq> occupied board" by simp
  ultimately show ?thesis using assms(2) by (auto simp: readable_def)
qed

lemma wellFormed_position:
  assumes "wellFormed n board" and "rc \<in> set (cells n)"
    and "cell board (fst rc) (snd rc) = Inr (Some p)"
  shows "position p = rc"
  using assms by (auto simp: wellFormed_def list_all_iff)

lemma cells_inRange: "rc \<in> set (cells n) \<Longrightarrow> inRange n rc"
  by (auto simp: cells_def inRange_def)

lemma collectStep_total:
  assumes wf: "wellFormed (boardSize rules) board" and rc: "rc \<in> set (cells (boardSize rules))"
  shows "\<exists>acc'. collectStep board pl rules rc acc = Inr acc'"
proof -
  let ?n = "boardSize rules"
  from wf have n: "?n \<le> int (length board)" by (simp add: wellFormed_def)
  from cells_inRange [OF rc] have r: "inRange ?n rc" .
  then obtain po where po: "cell board (fst rc) (snd rc) = Inr po"
    using cell_row_ok [of "fst rc" ?n board "snd rc"] n by (auto simp: inRange_def)
  show ?thesis
  proof (cases po)
    case None
    with po show ?thesis by (simp add: collectStep_def)
  next
    case (Some piece)
    from wellFormed_position [OF wf rc] po Some have "position piece = rc" by simp
    with r getPieceMoves_total [OF n, of piece] obtain js where
      "getPieceMoves board piece rules = Inr js" by auto
    with po Some show ?thesis by (simp add: collectStep_def)
  qed
qed

lemma collectStep_readable:
  assumes wf: "wellFormed (boardSize rules) board" and rc: "rc \<in> set (cells (boardSize rules))"
    and step: "collectStep board pl rules rc acc = Inr acc'"
    and inv: "\<forall>m \<in> set (fst acc). readable (boardSize rules) board m"
  shows "\<forall>m \<in> set (fst acc'). readable (boardSize rules) board m"
proof (cases "cell board (fst rc) (snd rc)")
  case (Inl e)
  with step show ?thesis by (simp add: collectStep_def)
next
  case (Inr po)
  show ?thesis
  proof (cases po)
    case None
    with Inr step inv show ?thesis by (simp add: collectStep_def)
  next
    case (Some piece)
    from wellFormed_position [OF wf rc] Inr Some have pos: "position piece = rc" by simp
    show ?thesis
    proof (cases "player piece = pl")
      case False
      with Inr Some step inv show ?thesis by (simp add: collectStep_def)
    next
      case True
      with Inr Some step obtain jumps steps where
        g: "getPieceMoves board piece rules = Inr (jumps, steps)"
        and acc': "fst acc' = fst acc @ jumps"
        by (auto simp: collectStep_def split: sum.splits)
      from cells_inRange [OF rc] pos have "inRange (boardSize rules) (position piece)" by simp
      from getPieceMoves_readable [OF g this] inv acc' show ?thesis by auto
    qed
  qed
qed

lemma foldE_total_invariant:
  assumes "I s"
    and "\<And>x t. x \<in> set xs \<Longrightarrow> I t \<Longrightarrow> \<exists>t'. f x t = Inr t' \<and> I t'"
  shows "\<exists>s'. foldE f xs s = Inr s' \<and> I s'"
  using assms
proof (induction xs arbitrary: s)
  case Nil
  then show ?case by simp
next
  case (Cons a xs)
  from Cons.prems(2) [of a s] Cons.prems(1) obtain t' where t': "f a s = Inr t'" "I t'" by auto
  from Cons.IH [OF t'(2)] Cons.prems(2) obtain s' where "foldE f xs t' = Inr s'" "I s'"
    by auto
  with t' show ?case by simp
qed

lemma collectMoves_total:
  assumes wf: "wellFormed (boardSize rules) board"
  shows "\<exists>jumpMoves stepMoves. collectMoves board pl rules = Inr (jumpMoves, stepMoves) \<and>
           (\<forall>m \<in> set jumpMoves. readable (boardSize rules) board m)"
proof -
  let ?I = "\<lambda>acc. \<forall>m \<in> set (fst acc). readable (boardSize rules) board m"
  have "\<exists>s'. foldE (collectStep board pl rules) (cells (boardSize rules)) ([], []) = Inr s' \<and> ?I s'"
  proof (rule foldE_total_invariant [where I = ?I])
    show "?I ([], [])" by simp
    show "\<exists>t'. collectStep board pl rules x t = Inr t' \<and> ?I t'"
      if "x \<in> set (cells (boardSize rules))" "?I t" for x t
    proof -
      from collectStep_total [OF wf that(1), of pl t] obtain t' where
        t': "collectStep board pl rules x t = Inr t'" by blast
      from collectStep_readable [OF wf that(1) t' that(2)] t' show ?thesis by blast
    qed
  qed
  then show ?thesis by (auto simp: collectMoves_def)
qed

lemma isKingAt_total:
  "0 \<le> fst pos \<Longrightarrow> fst pos < n \<Longrightarrow> n \<le> int (length board) \<Longrightarrow> \<exists>b. isKingAt board pos = Inr b"
  using cell_row_ok [of "fst pos" n board "snd pos"]
  by (auto simp: isKingAt_def split: option.splits)

lemma isKingAt_occupied: "pos \<in> occupied board \<Longrightarrow> \<exists>b. isKingAt board pos = Inr b"
  by (cases pos) (auto simp: occupied_def isKingAt_def)

lemma getKingCount_total:
  assumes "readable n board m"
  shows "\<exists>k. getKingCount board m = Inr k"
proof (cases "captures m")
  case None
  then show ?thesis by (simp add: getKingCount_def)
next
  case (Some cs)
  with assms have "set cs \<subseteq> occupied board" by (simp add: readable_def)
  then have "\<exists>ks. filterE (isKingAt board) cs = Inr ks"
    by (intro filterE_total isKingAt_occupied) auto
  with Some show ?thesis by (auto simp: getKingCount_def)
qed

text \<open>On a board with at least as many rows as the variant's size, on which every piece found
  by the double loop carries the position of its cell, \<open>getValidMoves\<close> returns a list of moves:
  no read of the move generator leaves the rows of the board.\<close>

theorem getValidMoves_total:
  assumes wf: "wellFormed (boardSize (getVariantRules variant)) board"
  shows "\<exists>moves. getValidMoves board pl variant = Inr moves"
proof -
  let ?rules = "getVariantRules variant"
  let ?n = "boardSize ?rules"
  from wf have n: "?n \<le> int (length board)" by (simp add: wellFormed_def)
  from collectMoves_total [OF wf, of pl] obtain jumpMoves stepMoves where
    c: "collectMoves board pl ?rules = Inr (jumpMoves, stepMoves)"
    and rd: "\<And>m. m \<in> set jumpMoves \<Longrightarrow> readable ?n board m"
    by blast
  show ?thesis
  proof (cases "length jumpMoves > 0")
    case False
    with c show ?thesis by (simp add: getValidMoves_def Let_def)
  next
    case True
    have "\<exists>kj. filterE (\<lambda>m. isKingAt board (from_pos m)) jumpMoves = Inr kj"
    proof (rule filterE_total)
      fix m assume "m \<in> set jumpMoves"
      from rd [OF this] have "inRange ?n (from_pos m)" by (simp add: readable_def)
      then show "\<exists>b. isKingAt board (from_pos m) = Inr b"
        using isKingAt_total [of "from_pos m" ?n board] n by (simp add: inRange_def)
    qed
    then have "\<exists>ks. kingPriorityFilter ?rules board jumpMoves = Inr ks"
      by (cases "kingCapturePriority ?rules") (auto simp: kingPriorityFilter_def)
    then obtain ks where ks: "kingPriorityFilter ?rules board jumpMoves = Inr ks" ..
    let ?maj = "majorityFilter ?rules ks"
    have maj: "readable ?n board m" if "m \<in> set ?maj" for m
      using that majorityFilter_subset [of ?rules ks] kingPriorityFilter_subset [OF ks] rd
      by blast
    have "\<exists>qs. qualityFilter ?rules board ?maj = Inr qs"
    proof (cases "qualityCaptureRequired ?rules")
      case False
      then show ?thesis by (simp add: qualityFilter_def)
    next
      case q: True
      have each: "\<exists>k. getKingCount board m = Inr k" if "m \<in> set ?maj" for m
        using that maj getKingCount_total by blast
      then obtain counts where counts: "mapE (getKingCount board) ?maj = Inr counts"
        using mapE_total [of ?maj "getKingCount board"] by blast
      have "\<exists>qs. filterE (\<lambda>m. case getKingCount board m of
                                Inl e \<Rightarrow> Inl e
                              | Inr k \<Rightarrow> Inr (Fin (int k) = mathMax (map (\<lambda>k. Fin (int k)) counts)))
                   ?maj = Inr qs"
      proof (rule filterE_total)
        fix m assume "m \<in> set ?maj"
        from each [OF this] obtain k where "getKingCount board m = Inr k" ..
        then show "\<exists>b. (case getKingCount board m of
                                Inl e \<Rightarrow> Inl e
                              | Inr k \<Rightarrow> Inr (Fin (int k) = mathMax (map (\<lambda>k. Fin (int k)) counts)))
                        = Inr b"
          by simp
      qed
      with q counts show ?thesis by (simp add: qualityFilter_def Let_def)
    qed
    with c True ks show ?thesis by (simp add: getValidMoves_def Let_def)
  qed
qed

lemma jumpBoard_wellFormed: "wellFormed (boardSize (getVariantRules ENGLISH)) jumpBoard"
  by code_simp

text \<open>The initial board of every variant is well formed, so the move generator returns on it
  for either side.\<close>

lemma createInitialBoard_wellFormed:
  "wellFormed (boardSize (getVariantRules v)) (createInitialBoard v)"
  by (cases v; hypsubst_thin; code_simp)

corollary getValidMoves_initial:
  "\<exists>moves. getValidMoves (createInitialBoard v) pl v = Inr moves"
  by (rule getValidMoves_total [OF createInitialBoard_wellFormed])

subsection \<open>Initial layout\<close>

text \<open>Claim C7 as stated fails: on the Turkish board, 8 wide and not the Thai variant,
  WHITE pieces stand on rows 1 and 2 only, two rows where the claim announces three.\<close>

theorem createInitialBoard_rows_counterexample:
  "boardSize (getVariantRules TURKISH) = 8 \<and> claimedRows TURKISH = 3 \<and>
   rowsOf WHITE (createInitialBoard TURKISH) = [1, 2] \<and>
   length (rowsOf WHITE (createInitialBoard TURKISH)) \<noteq> claimedRows TURKISH"
  by code_simp

text \<open>Claim C7, amended: for every variant, \<open>createInitialBoard\<close> returns a square board of
  the variant's size. When the variant plays on one square colour, WHITE occupies the first
  \<open>k\<close> rows and RED the last \<open>k\<close> rows, where \<open>k\<close> is 3 on 8-wide boards, 4 on 10-wide
  boards, 5 on 12-wide boards and 2 for the Thai variant, with a pawn of that side on every
  dark square of these rows and nothing on the light squares. When the variant plays on all
  squares (Turkish, Armenian), WHITE occupies rows 1 and 2 and RED rows \<open>n - 3\<close> and
  \<open>n - 2\<close>, two rows per side, with a pawn of that side on every square of these rows.\<close>

theorem createInitialBoard_rows:
  "(let b = createInitialBoard v; rules = getVariantRules v; n = nat (boardSize rules);
        k = claimedRows v
    in squareBoard n b \<and>
       rowsOf WHITE b = (if darkSquarePlay rules then [0..<k] else [1, 2]) \<and>
       rowsOf RED b = (if darkSquarePlay rules then [n - k..<n] else [n - 3, n - 2]) \<and>
       rowsFilled (darkSquarePlay rules) WHITE b \<and> rowsFilled (darkSquarePlay rules) RED b)"
  by (cases v; hypsubst_thin; code_simp)

theorem createInitialBoard_rows_witness:
  "rowsOf WHITE (createInitialBoard CANADIAN) = [0..<5] \<and>
   rowsOf RED (createInitialBoard CANADIAN) = [7..<12] \<and>
   rowsOf WHITE (createInitialBoard ARMENIAN) = [1, 2] \<and>
   rowsOf RED (createInitialBoard ARMENIAN) = [5, 6]"
  using createInitialBoard_rows [of CANADIAN] createInitialBoard_rows [of ARMENIAN]
  by (simp add: Let_def claimedRows_def base_def)

subsection \<open>Antisymmetry of the static evaluation\<close>

text \<open>Claim C5 as stated fails on the 10-wide International board: the advancement bonus
  and the square table are anchored at index 7, not at \<open>size - 1\<close>. A lone RED man on
  \<open>(1, 0)\<close> scores 1245, its mirror (a WHITE man on \<open>(8, 9)\<close>) scores -1265.\<close>

theorem evaluateBoard_antisymmetry_counterexample:
  "\<not> isLosingGoal (getVariantRules INTERNATIONAL) \<and>
   evaluateBoard cexBoard INTERNATIONAL = Inr 1245 \<and>
   evaluateBoard (mirrorBoard (boardSize (getVariantRules INTERNATIONAL)) cexBoard)
     INTERNATIONAL = Inr (- 1265)"
  by code_simp

lemma foldE_evalStep_sums:
  "foldE (evalStep board n) cs (a, b, x, y) = Inr res \<Longrightarrow>
   res = (a + sum_list (map (rv board n) cs), b + sum_list (map (wv board n) cs),
          x + sum_list (map (rn board) cs), y + sum_list (map (wn board) cs))"
proof (induction cs arbitrary: a b x y)
  case Nil
  then show ?case by simp
next
  case (Cons rc cs)
  obtain r c where rc: "rc = (r, c)" by (cases rc)
  from Cons.prems obtain s' where s': "evalStep board n rc (a, b, x, y) = Inr s'"
    and rest: "foldE (evalStep board n) cs s' = Inr res"
    by (auto split: sum.splits)
  show ?case
  proof (cases "cell board r c")
    case (Inl e)
    with s' rc show ?thesis by (simp add: evalStep_def)
  next
    case (Inr po)
    show ?thesis
    proof (cases po)
      case None
      with Inr s' rc have "s' = (a, b, x, y)" by (simp add: evalStep_def)
      with rest Cons.IH [of a b x y] Inr None rc show ?thesis
        by (simp add: rv_def wv_def rn_def wn_def)
    next
      case (Some p)
      show ?thesis
      proof (cases "player p = RED")
        case True
        with Inr Some s' rc have "s' = (a + pieceVal n r c p, b, x + 1, y)"
          by (simp add: evalStep_def)
        with rest Cons.IH [of "a + pieceVal n r c p" b "x + 1" y] Inr Some rc True show ?thesis
          by (simp add: rv_def wv_def rn_def wn_def)
      next
        case False
        with Inr Some s' rc have "s' = (a, b + pieceVal n r c p, x, y + 1)"
          by (simp add: evalStep_def)
        with rest Cons.IH [of a "b + pieceVal n r c p" x "y + 1"] Inr Some rc False show ?thesis
          by (simp add: rv_def wv_def rn_def wn_def)
      qed
    qed
  qed
qed

lemma foldE_evalStep_total:
  "\<forall>rc \<in> set cs. cell board (fst rc) (snd rc) \<noteq> Inl TypeError \<Longrightarrow>
   \<exists>res. foldE (evalStep board n) cs acc = Inr res"
proof (induction cs arbitrary: acc)
  case Nil
  show ?case by (rule exI [of _ acc]) simp
next
  case (Cons rc cs)
  obtain r c where rc: "rc = (r, c)" by (cases rc)
  obtain a b x y where acc: "acc = (a, b, x, y)" using prod_cases4 by blast
  from Cons.prems rc have "cell board r c \<noteq> Inl TypeError" by simp
  then obtain po where po: "cell board r c = Inr po"
    by (auto simp: cell_def Let_def split: if_splits)
  have "\<exists>s'. evalStep board n rc acc = Inr s'"
    using po rc acc by (cases po) (simp_all add: evalStep_def)
  then obtain s' where s': "evalStep board n rc acc = Inr s'" ..
  from Cons.prems have "\<exists>res. foldE (evalStep board n) cs s' = Inr res"
    by (intro Cons.IH) simp
  with s' show ?case by simp
qed

lemma foldE_evalStep_reads:
  "foldE (evalStep board n) cs acc = Inr res \<Longrightarrow> rc \<in> set cs \<Longrightarrow>
   \<exists>po. cell board (fst rc) (snd rc) = Inr po"
proof (induction cs arbitrary: acc)
  case Nil
  then show ?case by simp
next
  case (Cons x cs)
  from Cons.prems(1) obtain s' where s': "evalStep board n x acc = Inr s'"
    and rest: "foldE (evalStep board n) cs s' = Inr res"
    by (auto split: sum.splits)
  show ?case
  proof (cases "rc = x")
    case True
    with s' show ?thesis
      by (cases "cell board (fst x) (snd x)") (auto simp: evalStep_def split: prod.splits)
  next
    case False
    with Cons.prems(2) have "rc \<in> set cs" by simp
    with Cons.IH [OF rest] show ?thesis by simp
  qed
qed

lemma cells8_rev: "map (\<lambda>rc. (7 - fst rc, 7 - snd rc)) (cells 8) = rev (cells 8)"
  by code_simp

lemma cells8_set: "rc \<in> set (cells 8) \<Longrightarrow> 0 \<le> fst rc \<and> fst rc \<le> 7 \<and> 0 \<le> snd rc \<and> snd rc \<le> 7"
  by (auto simp: cells_def)

lemma cells8_mem: "0 \<le> r \<Longrightarrow> r \<le> 7 \<Longrightarrow> 0 \<le> c \<Longrightarrow> c \<le> 7 \<Longrightarrow> (r, c) \<in> set (cells 8)"
  by (force simp: cells_def)

lemma cell_mirrorBoard:
  assumes "0 \<le> r" "r < n" "0 \<le> c" "c < n"
  shows "cell (mirrorBoard n board) r c = Inr (pieceOf (mirrorCell n board r c))"
  using assms by (simp add: cell_def mirrorBoard_def Let_def)

lemma pieceVal_mirror:
  assumes "0 \<le> r" "r \<le> 7" "0 \<le> c" "c \<le> 7" "player p \<noteq> player q" "type p = type q"
  shows "pieceVal 8 r c p = pieceVal 8 (7 - r) (7 - c) q"
proof -
  have pl: "(player p = RED) = (player q \<noteq> RED)"
    using assms(5) by (cases "player p"; cases "player q") auto
  show ?thesis
  proof (cases "player p = RED")
    case True
    with pl have "player q \<noteq> RED" by simp
    with True assms show ?thesis
      by (auto simp: pieceVal_def Let_def min_def)
  next
    case False
    with pl have "player q = RED" by simp
    with False assms show ?thesis
      by (auto simp: pieceVal_def Let_def min_def)
  qed
qed

lemma mirror_contrib:
  assumes rng: "0 \<le> r" "r \<le> 7" "0 \<le> c" "c \<le> 7"
    and rd: "cell board (7 - r) (7 - c) = Inr po"
  shows "rv (mirrorBoard 8 board) 8 (r, c) = wv board 8 (7 - r, 7 - c)
       \<and> wv (mirrorBoard 8 board) 8 (r, c) = rv board 8 (7 - r, 7 - c)
       \<and> rn (mirrorBoard 8 board) (r, c) = wn board (7 - r, 7 - c)
       \<and> wn (mirrorBoard 8 board) (r, c) = rn board (7 - r, 7 - c)"
proof -
  have m: "cell (mirrorBoard 8 board) r c = Inr (pieceOf (mirrorCell 8 board r c))"
    using rng by (intro cell_mirrorBoard) auto
  show ?thesis
  proof (cases po)
    case None
    with rd m show ?thesis
      by (simp add: rv_def wv_def rn_def wn_def mirrorCell_def pieceOf_def)
  next
    case (Some p)
    define q where "q = p\<lparr> player := opponent (player p), position := (r, c) \<rparr>"
    have q: "player q \<noteq> player p" "type q = type p"
      by (simp_all add: q_def opponent_def)
    have mq: "cell (mirrorBoard 8 board) r c = Inr (Some q)"
      using m rd Some by (simp add: mirrorCell_def pieceOf_def q_def)
    have pv: "pieceVal 8 r c q = pieceVal 8 (7 - r) (7 - c) p"
      using rng q by (intro pieceVal_mirror) auto
    have fl: "(player q = RED) = (player p \<noteq> RED)"
      using q(1) by (cases "player p"; cases "player q") auto
    show ?thesis
      using mq rd Some pv fl by (simp add: rv_def wv_def rn_def wn_def)
  qed
qed

lemma sum_cells8_flip:
  fixes f :: "Pos \<Rightarrow> int"
  shows "sum_list (map (\<lambda>rc. f (7 - fst rc, 7 - snd rc)) (cells 8)) = sum_list (map f (cells 8))"
proof -
  have "map (\<lambda>rc. f (7 - fst rc, 7 - snd rc)) (cells 8)
        = map f (map (\<lambda>rc. (7 - fst rc, 7 - snd rc)) (cells 8))"
    by (simp add: comp_def)
  also have "\<dots> = rev (map f (cells 8))"
    by (simp only: cells8_rev rev_map)
  finally show ?thesis by simp
qed

lemma mirror_sums:
  assumes reads: "\<And>rc. rc \<in> set (cells 8) \<Longrightarrow> \<exists>po. cell board (fst rc) (snd rc) = Inr po"
  shows "sum_list (map (rv (mirrorBoard 8 board) 8) (cells 8)) = sum_list (map (wv board 8) (cells 8))"
    and "sum_list (map (wv (mirrorBoard 8 board) 8) (cells 8)) = sum_list (map (rv board 8) (cells 8))"
    and "sum_list (map (rn (mirrorBoard 8 board)) (cells 8)) = sum_list (map (wn board) (cells 8))"
    and "sum_list (map (wn (mirrorBoard 8 board)) (cells 8)) = sum_list (map (rn board) (cells 8))"
proof -
  have flip: "\<exists>po. cell board (7 - fst rc) (7 - snd rc) = Inr po" if "rc \<in> set (cells 8)" for rc
  proof -
    from that have "(7 - fst rc, 7 - snd rc) \<in> set (cells 8)"
      using cells8_set [of rc] by (intro cells8_mem) auto
    from reads [OF this] show ?thesis by simp
  qed
  have pt: "rv (mirrorBoard 8 board) 8 rc = wv board 8 (7 - fst rc, 7 - snd rc)
          \<and> wv (mirrorBoard 8 board) 8 rc = rv board 8 (7 - fst rc, 7 - snd rc)
          \<and> rn (mirrorBoard 8 board) rc = wn board (7 - fst rc, 7 - snd rc)
          \<and> wn (mirrorBoard 8 board) rc = rn board (7 - fst rc, 7 - snd rc)"
    if mem: "rc \<in> set (cells 8)" for rc
  proof -
    obtain po where po: "cell board (7 - fst rc) (7 - snd rc) = Inr po"
      using flip [OF mem] by blast
    have rng: "0 \<le> fst rc" "fst rc \<le> 7" "0 \<le> snd rc" "snd rc \<le> 7"
      using cells8_set [OF mem] by auto
    show ?thesis
      using mirror_contrib [OF rng po] by simp
  qed
  have "map (rv (mirrorBoard 8 board) 8) (cells 8)
        = map (\<lambda>rc. wv board 8 (7 - fst rc, 7 - snd rc)) (cells 8)"
    by (rule map_cong [OF refl]) (simp add: pt)
  then show "sum_list (map (rv (mirrorBoard 8 board) 8) (cells 8)) = sum_list (map (wv board 8) (cells 8))"
    by (simp only: sum_cells8_flip)
  have "map (wv (mirrorBoard 8 board) 8) (cells 8)
        = map (\<lambda>rc. rv board 8 (7 - fst rc, 7 - snd rc)) (cells 8)"
    by (rule map_cong [OF refl]) (simp add: pt)
  then show "sum_list (map (wv (mirrorBoard 8 board) 8) (cells 8)) = sum_list (map (rv board 8) (cells 8))"
    by (simp only: sum_cells8_flip)
  have "map (rn (mirrorBoard 8 board)) (cells 8)
        = map (\<lambda>rc. wn board (7 - fst rc, 7 - snd rc)) (cells 8)"
    by (rule map_cong [OF refl]) (simp add: pt)
  then show "sum_list (map (rn (mirrorBoard 8 board)) (cells 8)) = sum_list (map (wn board) (cells 8))"
    by (simp only: sum_cells8_flip)
  have "map (wn (mirrorBoard 8 board)) (cells 8)
        = map (\<lambda>rc. rn board (7 - fst rc, 7 - snd rc)) (cells 8)"
    by (rule map_cong [OF refl]) (simp add: pt)
  then show "sum_list (map (wn (mirrorBoard 8 board)) (cells 8)) = sum_list (map (rn board) (cells 8))"
    by (simp only: sum_cells8_flip)
qed

text \<open>Claim C5, amended: for every variant whose board is 8 wide and that does not set the
  losing-is-winning objective, and every board that \<open>evaluateBoard\<close> scores (one with at
  least 8 rows), the score of the side-swapped mirror is the exact negation.\<close>

theorem evaluateBoard_antisymmetry_8:
  assumes bs: "boardSize (getVariantRules v) = 8"
    and nl: "\<not> isLosingGoal (getVariantRules v)"
    and ev: "evaluateBoard board v = Inr s"
  shows "evaluateBoard (mirrorBoard (boardSize (getVariantRules v)) board) v = Inr (- s)"
proof -
  from ev bs obtain res where res: "foldE (evalStep board 8) (cells 8) (0, 0, 0, 0) = Inr res"
    by (auto simp: evaluateBoard_def Let_def split: sum.splits)
  have reads: "\<exists>po. cell board (fst rc) (snd rc) = Inr po" if "rc \<in> set (cells 8)" for rc
    using foldE_evalStep_reads [OF res that] .
  have res_eq: "res = (sum_list (map (rv board 8) (cells 8)), sum_list (map (wv board 8) (cells 8)),
                 sum_list (map (rn board) (cells 8)), sum_list (map (wn board) (cells 8)))"
    using foldE_evalStep_sums [OF res] by simp
  have s_eq: "s = sum_list (map (rv board 8) (cells 8)) - sum_list (map (wv board 8) (cells 8))
        + (sum_list (map (rn board) (cells 8)) - sum_list (map (wn board) (cells 8))) * 25"
    using ev bs nl res res_eq by (simp add: evaluateBoard_def Let_def)
  have "\<forall>rc \<in> set (cells 8). cell (mirrorBoard 8 board) (fst rc) (snd rc) \<noteq> Inl TypeError"
  proof
    fix rc assume "rc \<in> set (cells 8)"
    then have "cell (mirrorBoard 8 board) (fst rc) (snd rc)
               = Inr (pieceOf (mirrorCell 8 board (fst rc) (snd rc)))"
      using cells8_set [of rc] by (intro cell_mirrorBoard) auto
    then show "cell (mirrorBoard 8 board) (fst rc) (snd rc) \<noteq> Inl TypeError" by simp
  qed
  then obtain res' where
    res': "foldE (evalStep (mirrorBoard 8 board) 8) (cells 8) (0, 0, 0, 0) = Inr res'"
    using foldE_evalStep_total by blast
  have res'_eq: "res' = (sum_list (map (wv board 8) (cells 8)), sum_list (map (rv board 8) (cells 8)),
                 sum_list (map (wn board) (cells 8)), sum_list (map (rn board) (cells 8)))"
    using foldE_evalStep_sums [OF res'] mirror_sums [of board, OF reads] by simp
  show ?thesis
    using bs nl res' res'_eq s_eq by (simp add: evaluateBoard_def Let_def)
qed

theorem evaluateBoard_antisymmetry_8_witness:
  "boardSize (getVariantRules ENGLISH) = 8 \<and> \<not> isLosingGoal (getVariantRules ENGLISH) \<and>
   evaluateBoard wBoard ENGLISH = Inr (- 2575) \<and>
   evaluateBoard (mirrorBoard (boardSize (getVariantRules ENGLISH)) wBoard) ENGLISH = Inr 2575"
proof -
  have a: "boardSize (getVariantRules ENGLISH) = 8" by code_simp
  have b: "\<not> isLosingGoal (getVariantRules ENGLISH)" by code_simp
  have c: "evaluateBoard wBoard ENGLISH = Inr (- 2575)" by code_simp
  from evaluateBoard_antisymmetry_8 [OF a b c] a b c show ?thesis by simp
qed

subsection \<open>Forced capture\<close>

text \<open>Claim C1: let \<open>jumpMoves\<close> and \<open>stepMoves\<close> be the capture chains and the step moves
  that the double loop of \<open>getValidMoves\<close> collects over the pieces of the side to move.
  Every chain captures at least one cell and every step move captures none. If some chain
  was found, every move that \<open>getValidMoves\<close> returns is one of the chains, has a
  non-empty capture list and is not a step move; if none was found, the moves returned are
  exactly the step moves.\<close>

theorem getValidMoves_forced_capture:
  assumes c: "collectMoves board pl (getVariantRules variant) = Inr (jumpMoves, stepMoves)"
    and g: "getValidMoves board pl variant = Inr moves"
  shows "(jumpMoves \<noteq> [] \<longrightarrow>
            (\<forall>m \<in> set moves. m \<in> set jumpMoves \<and> capLen m > 0 \<and> m \<notin> set stepMoves)) \<and>
         (jumpMoves = [] \<longrightarrow> moves = stepMoves) \<and>
         (\<forall>m \<in> set jumpMoves. capLen m > 0) \<and> (\<forall>m \<in> set stepMoves. capLen m = 0)"
proof -
  from collectMoves_kinds [OF c]
  have jk: "\<And>m. m \<in> set jumpMoves \<Longrightarrow> isChain m" and sk: "\<And>m. m \<in> set stepMoves \<Longrightarrow> isStep m"
    by auto
  have "m \<in> set jumpMoves \<and> capLen m > 0 \<and> m \<notin> set stepMoves"
    if "jumpMoves \<noteq> []" "m \<in> set moves" for m
  proof -
    from getValidMoves_subset [OF c g that(1)] that(2) have mj: "m \<in> set jumpMoves" by blast
    with jk sk show ?thesis
      using isChain_capLen isChain_not_isStep by blast
  qed
  moreover have "jumpMoves = [] \<longrightarrow> moves = stepMoves"
    using getValidMoves_cases [OF c g] by simp
  moreover have "\<forall>m \<in> set jumpMoves. capLen m > 0"
    using jk isChain_capLen by blast
  moreover have "\<forall>m \<in> set stepMoves. capLen m = 0"
    using sk by (auto simp: isStep_def capLen_def)
  ultimately show ?thesis by blast
qed

theorem getValidMoves_forced_capture_witness:
  "collectMoves jumpBoard RED (getVariantRules ENGLISH) =
     Inr ([\<lparr>from_pos = (5, 2), to_pos = (1, 6), captures = Some [(4, 3), (2, 5)]\<rparr>,
           \<lparr>from_pos = (5, 2), to_pos = (1, 2), captures = Some [(4, 3), (2, 3)]\<rparr>],
          [\<lparr>from_pos = (5, 2), to_pos = (4, 1), captures = None\<rparr>,
           \<lparr>from_pos = (7, 0), to_pos = (6, 1), captures = None\<rparr>]) \<and>
   getValidMoves jumpBoard RED ENGLISH =
     Inr [\<lparr>from_pos = (5, 2), to_pos = (1, 6), captures = Some [(4, 3), (2, 5)]\<rparr>,
          \<lparr>from_pos = (5, 2), to_pos = (1, 2), captures = Some [(4, 3), (2, 3)]\<rparr>] \<and>
   capLen \<lparr>from_pos = (5, 2), to_pos = (1, 6), captures = Some [(4, 3), (2, 5)]\<rparr> > 0 \<and>
   capLen \<lparr>from_pos = (5, 2), to_pos = (1, 2), captures = Some [(4, 3), (2, 3)]\<rparr> > 0 \<and>
   capLen \<lparr>from_pos = (7, 0), to_pos = (6, 1), captures = None\<rparr> = 0"
proof -
  have c: "collectMoves jumpBoard RED (getVariantRules ENGLISH) =
     Inr ([\<lparr>from_pos = (5, 2), to_pos = (1, 6), captures = Some [(4, 3), (2, 5)]\<rparr>,
           \<lparr>from_pos = (5, 2), to_pos = (1, 2), captures = Some [(4, 3), (2, 3)]\<rparr>],
          [\<lparr>from_pos = (5, 2), to_pos = (4, 1), captures = None\<rparr>,
           \<lparr>from_pos = (7, 0), to_pos = (6, 1), captures = None\<rparr>])"
    by code_simp
  have g: "getValidMoves jumpBoard RED ENGLISH =
     Inr [\<lparr>from_pos = (5, 2), to_pos = (1, 6), captures = Some [(4, 3), (2, 5)]\<rparr>,
          \<lparr>from_pos = (5, 2), to_pos = (1, 2), captures = Some [(4, 3), (2, 3)]\<rparr>]"
    by code_simp
  from getValidMoves_forced_capture [OF c g] c g show ?thesis by simp
qed

subsection \<open>Captured cells are pairwise distinct\<close>

text \<open>Claim C6: no move returned by \<open>getValidMoves\<close> lists the same captured cell twice,
  for every board, side and variant.\<close>

theorem getValidMoves_distinct_captures:
  assumes g: "getValidMoves board pl variant = Inr moves" and m: "m \<in> set moves"
  shows "distinct (case captures m of None \<Rightarrow> [] | Some cs \<Rightarrow> cs)"
proof -
  from g obtain jumpMoves stepMoves where
    c: "collectMoves board pl (getVariantRules variant) = Inr (jumpMoves, stepMoves)"
    by (auto simp: getValidMoves_def Let_def split: sum.splits)
  from collectMoves_kinds [OF c]
  have jk: "\<And>m. m \<in> set jumpMoves \<Longrightarrow> isChain m" and sk: "\<And>m. m \<in> set stepMoves \<Longrightarrow> isStep m"
    by auto
  show ?thesis
  proof (cases "jumpMoves = []")
    case True
    with getValidMoves_cases [OF c g] m have "isStep m" using sk by simp
    then show ?thesis by (simp add: isStep_def)
  next
    case False
    from getValidMoves_subset [OF c g False] m have "isChain m" using jk by blast
    then show ?thesis by (auto simp: isChain_def split: option.splits)
  qed
qed

theorem getValidMoves_distinct_captures_witness:
  "getValidMoves jumpBoard RED ENGLISH =
     Inr [\<lparr>from_pos = (5, 2), to_pos = (1, 6), captures = Some [(4, 3), (2, 5)]\<rparr>,
          \<lparr>from_pos = (5, 2), to_pos = (1, 2), captures = Some [(4, 3), (2, 3)]\<rparr>] \<and>
   distinct [(4, 3), (2, 5 :: int) :: Pos]"
proof -
  have g: "getValidMoves jumpBoard RED ENGLISH =
     Inr [\<lparr>from_pos = (5, 2), to_pos = (1, 6), captures = Some [(4, 3), (2, 5)]\<rparr>,
          \<lparr>from_pos = (5, 2), to_pos = (1, 2), captures = Some [(4, 3), (2, 3)]\<rparr>]"
    by code_simp
  from getValidMoves_distinct_captures [OF g,
      of "\<lparr>from_pos = (5, 2), to_pos = (1, 6), captures = Some [(4, 3), (2, 5)]\<rparr>"] g
  show ?thesis by simp
qed

subsection \<open>The order of the capture filters\<close>

lemma fold_max_ge: "(a :: number) \<le> fold max xs a"
proof (induction xs arbitrary: a)
  case Nil
  show ?case by simp
next
  case (Cons x xs)
  have "a \<le> max x a" by simp
  also have "\<dots> \<le> fold max xs (max x a)" by (rule Cons.IH)
  finally show ?case by simp
qed

lemma fold_max_upper: "x \<in> set xs \<Longrightarrow> (x :: number) \<le> fold max xs a"
proof (induction xs arbitrary: a)
  case Nil
  then show ?case by simp
next
  case (Cons y ys)
  show ?case
  proof (cases "x = y")
    case True
    have "x \<le> max y a" using True by simp
    also have "\<dots> \<le> fold max ys (max y a)" by (rule fold_max_ge)
    finally show ?thesis by simp
  next
    case False
    with Cons.prems have "x \<in> set ys" by simp
    from Cons.IH [OF this] show ?thesis by simp
  qed
qed

lemma fold_max_in: "fold max xs (a :: number) \<in> insert a (set xs)"
proof (induction xs arbitrary: a)
  case Nil
  show ?case by simp
next
  case (Cons y ys)
  have "fold max ys (max y a) \<in> insert (max y a) (set ys)" by (rule Cons.IH)
  moreover have "max y a = y \<or> max y a = a" by (auto simp: max_def)
  ultimately show ?case by auto
qed

lemma mathMax_tied:
  fixes f :: "'a \<Rightarrow> nat"
  assumes m: "m \<in> set ms"
  shows "(Fin (int (f m)) = mathMax (map (\<lambda>m. Fin (int (f m))) ms))
         = list_all (\<lambda>m'. f m' \<le> f m) ms"
proof
  assume eq: "Fin (int (f m)) = mathMax (map (\<lambda>m. Fin (int (f m))) ms)"
  have "f m' \<le> f m" if "m' \<in> set ms" for m'
  proof -
    from that have "Fin (int (f m')) \<in> set (map (\<lambda>m. Fin (int (f m))) ms)" by auto
    from fold_max_upper [OF this, of NegInf] eq have "Fin (int (f m')) \<le> Fin (int (f m))"
      by (simp add: mathMax_def)
    then show ?thesis by (simp add: Fin_le_iff)
  qed
  then show "list_all (\<lambda>m'. f m' \<le> f m) ms" by (simp add: list_all_iff)
next
  assume all: "list_all (\<lambda>m'. f m' \<le> f m) ms"
  let ?M = "mathMax (map (\<lambda>m. Fin (int (f m))) ms)"
  from m have "Fin (int (f m)) \<in> set (map (\<lambda>m. Fin (int (f m))) ms)" by auto
  from fold_max_upper [OF this, of NegInf] have ge: "Fin (int (f m)) \<le> ?M"
    by (simp add: mathMax_def)
  have "?M \<in> insert NegInf (set (map (\<lambda>m. Fin (int (f m))) ms))"
    unfolding mathMax_def by (rule fold_max_in)
  moreover have "?M \<noteq> NegInf"
    using ge by (auto simp: less_eq_number_def)
  ultimately obtain m' where m': "m' \<in> set ms" and M: "?M = Fin (int (f m'))" by auto
  from all m' have "f m' \<le> f m" by (simp add: list_all_iff)
  moreover from ge M have "f m \<le> f m'" by (simp add: Fin_le_iff)
  ultimately show "Fin (int (f m)) = ?M" using M by simp
qed

lemma majorityFilter_spec: "majorityFilter rules ms = specMajority rules ms"
proof -
  have "filter (\<lambda>m. Fin (int (capLen m)) = mathMax (map (\<lambda>m. Fin (int (capLen m))) ms)) ms
        = filter (\<lambda>m. list_all (\<lambda>m'. capLen m' \<le> capLen m) ms) ms"
    by (rule filter_cong [OF refl]) (rule mathMax_tied)
  then show ?thesis
    by (simp add: majorityFilter_def specMajority_def Let_def)
qed

lemma isKingAt_True: "(isKingAt board pos = Inr True) = kingCell board pos"
  by (auto simp: isKingAt_def kingCell_def split: sum.splits option.splits)

lemma kingPriorityFilter_spec:
  assumes "kingPriorityFilter rules board ms = Inr ks"
  shows "ks = specKingPriority rules board ms"
proof (cases "kingCapturePriority rules")
  case False
  with assms show ?thesis
    by (simp add: kingPriorityFilter_def specKingPriority_def)
next
  case True
  with assms obtain kingJumps where
    f: "filterE (\<lambda>m. isKingAt board (from_pos m)) ms = Inr kingJumps"
    and ks: "ks = (if length kingJumps > 0 then kingJumps else ms)"
    by (auto simp: kingPriorityFilter_def split: sum.splits)
  have "fromKing board = (\<lambda>m. kingCell board (from_pos m))"
    by (rule ext) (simp add: fromKing_def)
  with filterE_eq [OF f] have kj: "kingJumps = filter (fromKing board) ms"
    by (simp add: isKingAt_True)
  have "(length kingJumps > 0) = list_ex (fromKing board) ms"
    unfolding kj by (auto simp: list_ex_iff filter_empty_conv)
  with ks kj True show ?thesis
    by (simp add: specKingPriority_def)
qed

lemma getKingCount_spec:
  assumes "getKingCount board m = Inr k"
  shows "k = kingsCaptured board m"
proof (cases "captures m")
  case None
  with assms show ?thesis by (simp add: getKingCount_def kingsCaptured_def)
next
  case (Some cs)
  with assms obtain kings where f: "filterE (isKingAt board) cs = Inr kings" and k: "k = length kings"
    by (auto simp: getKingCount_def split: sum.splits)
  from filterE_eq [OF f] have "kings = filter (kingCell board) cs"
    by (simp add: isKingAt_True)
  with k Some show ?thesis by (simp add: kingsCaptured_def)
qed

lemma mapE_Inr_all:
  "mapE f xs = Inr ys \<Longrightarrow> x \<in> set xs \<Longrightarrow> \<exists>y. f x = Inr y"
  by (induction xs arbitrary: ys) (auto split: sum.splits)

lemma qualityFilter_spec:
  assumes "qualityFilter rules board ms = Inr qs"
  shows "qs = specQuality rules board ms"
proof (cases "qualityCaptureRequired rules")
  case False
  with assms show ?thesis
    by (simp add: qualityFilter_def specQuality_def)
next
  case True
  let ?kc = "kingsCaptured board"
  from assms True obtain counts where
    cs: "mapE (getKingCount board) ms = Inr counts"
    and f: "filterE (\<lambda>m. case getKingCount board m of
                           Inl e \<Rightarrow> Inl e
                         | Inr k \<Rightarrow> Inr (Fin (int k) = mathMax (map (\<lambda>k. Fin (int k)) counts))) ms
            = Inr qs"
    by (auto simp: qualityFilter_def Let_def split: sum.splits)
  have each: "getKingCount board m = Inr (?kc m)" if "m \<in> set ms" for m
    using mapE_Inr_all [OF cs that] getKingCount_spec by blast
  have counts: "counts = map ?kc ms"
    using cs each
  proof (induction ms arbitrary: counts)
    case Nil
    then show ?case by simp
  next
    case (Cons a ms)
    from Cons.prems(2) [of a] have a: "getKingCount board a = Inr (?kc a)" by simp
    from Cons.prems(1) a obtain rest where
      rest: "mapE (getKingCount board) ms = Inr rest" and c: "counts = ?kc a # rest"
      by (auto split: sum.splits)
    from Cons.IH [OF rest] Cons.prems(2) have "rest = map ?kc ms" by simp
    with c show ?case by simp
  qed
  have "qs = filter (\<lambda>m. (case getKingCount board m of
                           Inl e \<Rightarrow> Inl e
                         | Inr k \<Rightarrow> Inr (Fin (int k) = mathMax (map (\<lambda>k. Fin (int k)) counts)))
                        = Inr True) ms"
    by (rule filterE_eq [OF f])
  also have "\<dots> = filter (\<lambda>m. Fin (int (?kc m)) = mathMax (map (\<lambda>m. Fin (int (?kc m))) ms)) ms"
    by (rule filter_cong [OF refl]) (simp add: each counts comp_def)
  also have "\<dots> = filter (\<lambda>m. list_all (\<lambda>m'. ?kc m' \<le> ?kc m) ms) ms"
    by (rule filter_cong [OF refl]) (rule mathMax_tied)
  finally show ?thesis
    using True by (simp add: specQuality_def)
qed

text \<open>Claim C2: whenever the capture chains that \<open>getValidMoves\<close> collects are not empty,
  the moves it returns are the result of the king-priority filter, then the majority filter,
  then the quality filter of the specification, each applied only when the rule-set requires
  it.\<close>

theorem getValidMoves_filter_pipeline:
  assumes c: "collectMoves board pl (getVariantRules variant) = Inr (jumpMoves, stepMoves)"
    and j: "jumpMoves \<noteq> []"
    and g: "getValidMoves board pl variant = Inr moves"
  shows "moves = specQuality (getVariantRules variant) board
                   (specMajority (getVariantRules variant)
                      (specKingPriority (getVariantRules variant) board jumpMoves))"
proof -
  from getValidMoves_cases [OF c g] j obtain ks where
    ks: "kingPriorityFilter (getVariantRules variant) board jumpMoves = Inr ks"
    and q: "qualityFilter (getVariantRules variant) board
              (majorityFilter (getVariantRules variant) ks) = Inr moves"
    by auto
  from kingPriorityFilter_spec [OF ks] qualityFilter_spec [OF q]
  show ?thesis by (simp add: majorityFilter_spec)
qed

theorem getValidMoves_filter_pipeline_witness:
  "collectMoves italianBoard RED (getVariantRules ITALIAN) =
     Inr ([\<lparr>from_pos = (3, 0), to_pos = (1, 2), captures = Some [(2, 1)]\<rparr>,
           \<lparr>from_pos = (5, 2), to_pos = (1, 6), captures = Some [(4, 3), (2, 5)]\<rparr>,
           \<lparr>from_pos = (5, 6), to_pos = (1, 6), captures = Some [(4, 5), (2, 5)]\<rparr>],
          [\<lparr>from_pos = (5, 2), to_pos = (6, 3), captures = None\<rparr>,
           \<lparr>from_pos = (5, 2), to_pos = (6, 1), captures = None\<rparr>,
           \<lparr>from_pos = (5, 2), to_pos = (4, 1), captures = None\<rparr>,
           \<lparr>from_pos = (5, 6), to_pos = (4, 7), captures = None\<rparr>]) \<and>
   getValidMoves italianBoard RED ITALIAN =
     Inr [\<lparr>from_pos = (5, 2), to_pos = (1, 6), captures = Some [(4, 3), (2, 5)]\<rparr>] \<and>
   specQuality (getVariantRules ITALIAN) italianBoard
     (specMajority (getVariantRules ITALIAN)
        (specKingPriority (getVariantRules ITALIAN) italianBoard
           [\<lparr>from_pos = (3, 0), to_pos = (1, 2), captures = Some [(2, 1)]\<rparr>,
            \<lparr>from_pos = (5, 2), to_pos = (1, 6), captures = Some [(4, 3), (2, 5)]\<rparr>,
            \<lparr>from_pos = (5, 6), to_pos = (1, 6), captures = Some [(4, 5), (2, 5)]\<rparr>]))
     = [\<lparr>from_pos = (5, 2), to_pos = (1, 6), captures = Some [(4, 3), (2, 5)]\<rparr>]"
proof -
  have c: "collectMoves italianBoard RED (getVariantRules ITALIAN) =
     Inr ([\<lparr>from_pos = (3, 0), to_pos = (1, 2), captures = Some [(2, 1)]\<rparr>,
           \<lparr>from_pos = (5, 2), to_pos = (1, 6), captures = Some [(4, 3), (2, 5)]\<rparr>,
           \<lparr>from_pos = (5, 6), to_pos = (1, 6), captures = Some [(4, 5), (2, 5)]\<rparr>],
          [\<lparr>from_pos = (5, 2), to_pos = (6, 3), captures = None\<rparr>,
           \<lparr>from_pos = (5, 2), to_pos = (6, 1), captures = None\<rparr>,
           \<lparr>from_pos = (5, 2), to_pos = (4, 1), captures = None\<rparr>,
           \<lparr>from_pos = (5, 6), to_pos = (4, 7), captures = None\<rparr>])"
    by code_simp
  have g: "getValidMoves italianBoard RED ITALIAN =
     Inr [\<lparr>from_pos = (5, 2), to_pos = (1, 6), captures = Some [(4, 3), (2, 5)]\<rparr>]"
    by code_simp
  have j: "[\<lparr>from_pos = (3, 0), to_pos = (1, 2), captures = Some [(2, 1)]\<rparr>,
           \<lparr>from_pos = (5, 2), to_pos = (1, 6), captures = Some [(4, 3), (2, 5)]\<rparr>,
           \<lparr>from_pos = (5, 6), to_pos = (1, 6), captures = Some [(4, 5), (2, 5 :: int) :: Pos]\<rparr>] \<noteq> []"
    by simp
  from getValidMoves_filter_pipeline [OF c j g] c g show ?thesis by simp
qed

subsection \<open>Orthogonal variants\<close>

text \<open>On an orthogonal variant the array \<open>dirs\<close> holds the two sideways directions and the
  forward direction of the piece's side, whatever the rank of the piece; the backward
  direction is not in it.\<close>

lemma dirsOf_orthogonal:
  assumes "isOrthogonal rules"
  shows "dirsOf rules piece = [(0, 1), (0, - 1), (if player piece = RED then - 1 else 1, 0)]"
    and "(if player piece = RED then 1 else - 1, 0) \<notin> set (dirsOf rules piece)"
  using assms by (auto simp: dirsOf_def)

text \<open>Claim C4 does not hold of the code: on an orthogonal variant \<open>dirs\<close> has three
  entries, sideways twice and forward, for kings as for men. On the Turkish board with a
  RED king on \<open>(3, 3)\<close> and a WHITE man behind it on \<open>(5, 3)\<close>, the cells \<open>(4, 3)\<close> and
  \<open>(6, 3)\<close> being empty, \<open>getValidMoves\<close> returns neither a step to \<open>(4, 3)\<close> nor the
  capture of \<open>(5, 3)\<close>: only the steps to the right, to the left and forward.\<close>

theorem orthogonal_king_no_backward:
  "isOrthogonal (getVariantRules TURKISH) \<and>
   dirsOf (getVariantRules TURKISH) (mkPiece RED KING 3 3) = [(0, 1), (0, - 1), (- 1, 0)] \<and>
   cell turkishBoard 3 3 = Inr (Some (mkPiece RED KING 3 3)) \<and>
   cell turkishBoard 4 3 = Inr None \<and>
   cell turkishBoard 5 3 = Inr (Some (mkPiece WHITE PAWN 5 3)) \<and>
   cell turkishBoard 6 3 = Inr None \<and>
   getValidMoves turkishBoard RED TURKISH =
     Inr [\<lparr>from_pos = (3, 3), to_pos = (3, 4), captures = None\<rparr>,
          \<lparr>from_pos = (3, 3), to_pos = (3, 5), captures = None\<rparr>,
          \<lparr>from_pos = (3, 3), to_pos = (3, 6), captures = None\<rparr>,
          \<lparr>from_pos = (3, 3), to_pos = (3, 7), captures = None\<rparr>,
          \<lparr>from_pos = (3, 3), to_pos = (3, 2), captures = None\<rparr>,
          \<lparr>from_pos = (3, 3), to_pos = (3, 1), captures = None\<rparr>,
          \<lparr>from_pos = (3, 3), to_pos = (3, 0), captures = None\<rparr>,
          \<lparr>from_pos = (3, 3), to_pos = (2, 3), captures = None\<rparr>,
          \<lparr>from_pos = (3, 3), to_pos = (1, 3), captures = None\<rparr>,
          \<lparr>from_pos = (3, 3), to_pos = (0, 3), captures = None\<rparr>]"
  by code_simp

subsection \<open>Clearing the transposition table\<close>

text \<open>Claim C9 as stated fails: the threshold at which \<open>getBestMove\<close> clears the table is
  not larger than the threshold below which \<open>alphaBeta\<close> stores, it is smaller.\<close>

theorem thresholds_counterexample:
  "clearThreshold = 20000 \<and> storeThreshold = 50000 \<and> \<not> storeThreshold < clearThreshold"
  by (simp add: clearThreshold_def storeThreshold_def)

text \<open>Claim C9, amended: at its start \<open>getBestMove\<close> empties the whole table whenever the
  table holds more than 20000 entries, so a call on such a table is a call on the empty
  table; this clearing threshold is strictly smaller than the threshold of 50000 below which
  \<open>alphaBeta\<close> stores a new entry; and whatever the table was before the call, it holds at
  most 50000 entries after it.\<close>

theorem getBestMove_table_bounded:
  "clearThreshold < storeThreshold \<and>
   (ttSize tt > clearThreshold \<longrightarrow> getBestMove tt gs = getBestMove [] gs) \<and>
   ttSize (snd (getBestMove tt gs)) \<le> storeThreshold"
proof (intro conjI impI)
  show "clearThreshold < storeThreshold"
    by (simp add: clearThreshold_def storeThreshold_def)
  show "getBestMove tt gs = getBestMove [] gs" if "ttSize tt > clearThreshold"
    using that by (simp add: getBestMove_def ttSize_def)
  define tt1 where "tt1 = (if ttSize tt > clearThreshold then [] else tt)"
  have tt1: "ttSize tt1 \<le> storeThreshold"
    by (simp add: tt1_def ttSize_def clearThreshold_def storeThreshold_def)
  show "ttSize (snd (getBestMove tt gs)) \<le> storeThreshold"
  proof (cases "getValidMoves (gBoard gs) (gTurn gs) (gVariant gs)")
    case (Inl e)
    with tt1 show ?thesis by (simp add: getBestMove_def tt1_def)
  next
    case (Inr moves)
    show ?thesis
    proof (cases moves)
      case Nil
      with Inr tt1 show ?thesis by (simp add: getBestMove_def tt1_def)
    next
      case (Cons m0 ms)
      let ?loop = "bestMoveLoop tt1 gs moves (depthOfLevel (gAiLevel gs) - 1) m0
                     (if gTurn gs = RED then NegInf else PosInf)"
      obtain res tt' where loop: "?loop = (res, tt')" by (cases ?loop)
      from bestMoveLoop_size [of tt1 gs moves "depthOfLevel (gAiLevel gs) - 1" m0
          "if gTurn gs = RED then NegInf else PosInf"] loop tt1
      have "ttSize tt' \<le> storeThreshold" by simp
      with Inr Cons loop show ?thesis
        by (cases res) (simp_all add: getBestMove_def tt1_def Let_def)
    qed
  qed
qed

theorem getBestMove_table_bounded_witness:
  "ttSize (replicate 20001 (''k'', \<lparr> entryDepth = 1, entryScore = Fin 0, entryFlag = UPPER \<rparr>))
     > clearThreshold \<and>
   getBestMove (replicate 20001 (''k'', \<lparr> entryDepth = 1, entryScore = Fin 0, entryFlag = UPPER \<rparr>))
     twoMenState = getBestMove [] twoMenState \<and>
   ttSize (snd (getBestMove [] twoMenState)) = 1 \<and> 1 \<le> storeThreshold"
proof -
  have sz: "ttSize (replicate 20001 (''k'', \<lparr> entryDepth = 1, entryScore = Fin 0, entryFlag = UPPER \<rparr>))
     > clearThreshold"
    by (simp add: ttSize_def clearThreshold_def)
  have one: "ttSize (snd (getBestMove [] twoMenState)) = 1"
    by (simp add: twoMen_getBestMove ttSize_def)
  from getBestMove_table_bounded
    [of "replicate 20001 (''k'', \<lparr> entryDepth = 1, entryScore = Fin 0, entryFlag = UPPER \<rparr>)"
        twoMenState] sz one
  show ?thesis by simp
qed

subsection \<open>The tag of a stored entry\<close>

text \<open>Claim C3 does not hold of the code. \<open>getBestMove\<close> on the empty table, RED to move with
  a man on \<open>(5, 0)\<close> against a WHITE man on \<open>(2, 7)\<close> at level 1, calls \<open>alphaBeta\<close> on the
  board after RED's only move with depth 1 and the window from \<open>-Infinity\<close> to \<open>Infinity\<close>.
  The value found, 0, lies strictly inside that window, and the entry stored for this node
  is tagged \<open>LOWER\<close>, not \<open>EXACT\<close>.\<close>

theorem alphaBeta_flag_not_from_original_window:
  "getBestMove [] twoMenState =
     (Inr (Some redStep),
      [(ttKey afterRed False WHITE,
        \<lparr> entryDepth = 1, entryScore = Fin 0, entryFlag = LOWER \<rparr>)]) \<and>
   applyMove (gBoard twoMenState) redStep (gVariant twoMenState) = Inr afterRed \<and>
   alphaBeta [] afterRed (depthOfLevel (gAiLevel twoMenState) - 1) NegInf PosInf False WHITE
       ENGLISH =
     (Inr (Fin 0),
      [(ttKey afterRed False WHITE,
        \<lparr> entryDepth = 1, entryScore = Fin 0, entryFlag = LOWER \<rparr>)]) \<and>
   NegInf < Fin 0 \<and> Fin 0 < PosInf"
  using twoMen_getBestMove twoMen_redStep afterRed_alphaBeta
  by (simp add: twoMenState_def depthOfLevel_def less_eq_number_def less_number_def)

subsection \<open>RED is the maximising side\<close>

lemma not_RED_iff: "(pl \<noteq> RED) = (pl = WHITE)"
  by (cases pl) simp_all

lemma reachable_isMax:
  "reachable gs c \<Longrightarrow> callIsMax c = (callPlayer c = RED)"
proof (induction rule: reachable.induct)
  case (from_root gs c)
  then show ?case by (auto elim!: rootCall.cases)
next
  case (by_move gs c c')
  from by_move.hyps(2) by_move.IH show ?case
    by (auto elim!: moveCall.cases)
next
  case (by_leaf gs c c')
  from by_leaf.hyps(2) by_leaf.IH show ?case
    by (auto elim!: leafCall.cases)
qed

text \<open>Claim C10: in every call of \<open>alphaBeta\<close> and of \<open>quiesce\<close> reachable from
  \<open>getBestMove\<close>, the flag \<open>isMax\<close> is true exactly when the side to move is RED; hence
  every recursive call made after a move, the two of \<open>quiesce\<close> with their literal sides
  included, passes the opponent of the side that has just moved.\<close>

theorem isMax_iff_RED:
  assumes "reachable gs c"
  shows "callIsMax c = (callPlayer c = RED) \<and>
         (\<forall>c'. moveCall (gVariant gs) c c' \<longrightarrow> callPlayer c' = opponent (callPlayer c))"
proof (intro conjI allI impI)
  show inv: "callIsMax c = (callPlayer c = RED)"
    using assms by (rule reachable_isMax)
  fix c' assume "moveCall (gVariant gs) c c'"
  then show "callPlayer c' = opponent (callPlayer c)"
    using inv by (cases rule: moveCall.cases) (auto simp: opponent_def not_RED_iff)
qed

theorem isMax_iff_RED_witness:
  "reachable twoMenState (AlphaBetaCall afterRed 1 False WHITE) \<and>
   moveCall (gVariant twoMenState) (AlphaBetaCall afterRed 1 False WHITE)
     (AlphaBetaCall afterWhite 0 True RED) \<and>
   callIsMax (AlphaBetaCall afterRed 1 False WHITE)
     = (callPlayer (AlphaBetaCall afterRed 1 False WHITE) = RED) \<and>
   callPlayer (AlphaBetaCall afterWhite 0 True RED)
     = opponent (callPlayer (AlphaBetaCall afterRed 1 False WHITE))"
proof -
  have root: "rootCall twoMenState
      (AlphaBetaCall afterRed (depthOfLevel (gAiLevel twoMenState) - 1) (gTurn twoMenState \<noteq> RED)
         (if gTurn twoMenState = RED then WHITE else RED))"
    by (rule getBestMove_call [where moves = "[redStep]" and move = redStep])
      (simp_all add: twoMenState_def twoMen_RED twoMen_redStep)
  then have r: "reachable twoMenState (AlphaBetaCall afterRed 1 False WHITE)"
    by (intro from_root) (simp add: twoMenState_def depthOfLevel_def)
  have "moveCall ENGLISH (AlphaBetaCall afterRed 1 False WHITE)
      (AlphaBetaCall afterWhite (1 - 1) (\<not> False) (if WHITE = RED then WHITE else RED))"
    by (rule alphaBeta_rec [where moves = "[whiteStep]" and move = whiteStep])
      (simp_all add: afterRed_WHITE afterRed_whiteStep ordered_def)
  then have m: "moveCall (gVariant twoMenState) (AlphaBetaCall afterRed 1 False WHITE)
     (AlphaBetaCall afterWhite 0 True RED)"
    by (simp add: twoMenState_def)
  from isMax_iff_RED [OF r] r m show ?thesis by blast
qed


end
